theory Spec2Isabelle
  imports Main "HOL-Library.Sublist"
begin

section \<open>Strings\<close>

text \<open>
  A string is held as the sequence of its bytes (UTF-8). \<open>" ".join\<close> and the substring
  test \<open>in\<close> are the same on bytes as on characters. \<open>int\<close> and \<open>str.lower\<close> are
  written out where what they do is fixed by the ASCII characters alone; what they do
  on other strings (Unicode digits, spaces and letters, the interpreter's limit on the
  number of digits) is a parameter of the functions that call them, so that every
  theorem about these holds of whatever the interpreter does there.
\<close>

definition newline :: char where
  "newline = CHR 0x0A"

fun join :: "string \<Rightarrow> string list \<Rightarrow> string" where
  "join sep [] = []"
| "join sep [x] = x"
| "join sep (x # y # ys) = x @ sep @ join sep (y # ys)"

text \<open>\<open>needle in haystack\<close> on strings: the needle occurs as a contiguous run.\<close>

fun py_in :: "string \<Rightarrow> string \<Rightarrow> bool" where
  "py_in needle [] = (needle = [])"
| "py_in needle (c # cs) = (prefix needle (c # cs) \<or> py_in needle cs)"

text \<open>\<open>str.strip\<close> on ASCII text, as \<open>get_text(strip=True)\<close> applies it.\<close>

definition is_space :: "char \<Rightarrow> bool" where
  "is_space c = (c \<in> set [CHR 0x20, CHR 0x09, CHR 0x0A, CHR 0x0B, CHR 0x0C, CHR 0x0D,
                           CHR 0x1C, CHR 0x1D, CHR 0x1E, CHR 0x1F])"

definition py_strip :: "string \<Rightarrow> string" where
  "py_strip s = rev (dropWhile is_space (rev (dropWhile is_space s)))"

definition is_ascii :: "char \<Rightarrow> bool" where
  "is_ascii c = ((of_char c :: nat) < 128)"

definition lower_char :: "char \<Rightarrow> char" where
  "lower_char c =
     (let n = (of_char c :: nat) in if 65 \<le> n \<and> n \<le> 90 then char_of (n + 32) else c)"

text \<open>
  \<open>s.lower()\<close>. On an ASCII string it lowers the letters A to Z and nothing else; on any
  other string it is \<open>lower_rest\<close>, the parameter.
\<close>

definition py_lower :: "(string \<Rightarrow> string) \<Rightarrow> string \<Rightarrow> string" where
  "py_lower lower_rest s = (if list_all is_ascii s then map lower_char s else lower_rest s)"

definition is_digit :: "char \<Rightarrow> bool" where
  "is_digit c = (48 \<le> (of_char c :: nat) \<and> (of_char c :: nat) \<le> 57)"

text \<open>
  The digits of a decimal literal; a single underscore may stand between two digits.
  The flag says that the character before was a digit.
\<close>

fun int_digits :: "bool \<Rightarrow> string \<Rightarrow> nat \<Rightarrow> nat option" where
  "int_digits prev [] acc = (if prev then Some acc else None)"
| "int_digits prev (c # cs) acc =
     (if is_digit c then int_digits True cs (10 * acc + ((of_char c :: nat) - 48))
      else if c = CHR ''_'' \<and> prev then int_digits False cs acc
      else None)"

text \<open>
  The white space that \<open>int\<close> drops around an ASCII literal: space, tab, line feed,
  vertical tab, form feed and carriage return (not the separators 0x1C to 0x1F, which
  \<open>str.strip\<close> does drop).
\<close>

definition int_space :: "char \<Rightarrow> bool" where
  "int_space c = (c \<in> set [CHR 0x20, CHR 0x09, CHR 0x0A, CHR 0x0B, CHR 0x0C, CHR 0x0D])"

definition int_strip :: "string \<Rightarrow> string" where
  "int_strip s = rev (dropWhile int_space (rev (dropWhile int_space s)))"

text \<open>
  \<open>int(s)\<close> on an ASCII string: white space around, a sign, decimal digits. \<open>None\<close>
  stands for the \<open>ValueError\<close> it raises.
\<close>

definition ascii_int :: "string \<Rightarrow> int option" where
  "ascii_int s =
     (case int_strip s of
        [] \<Rightarrow> None
      | c # cs \<Rightarrow>
          if c = CHR ''-'' then map_option (\<lambda>n. - int n) (int_digits False cs 0)
          else if c = CHR ''+'' then map_option int (int_digits False cs 0)
          else map_option int (int_digits False (c # cs) 0))"

text \<open>
  \<open>int(s)\<close>. On an ASCII string of at most 640 characters it is \<open>ascii_int\<close>: below
  that length the interpreter's limit on the number of digits, which cannot be set
  lower, does not bear. On any other string it is \<open>int_rest\<close>, the parameter.
\<close>

definition py_int :: "(string \<Rightarrow> int option) \<Rightarrow> string \<Rightarrow> int option" where
  "py_int int_rest s =
     (if list_all is_ascii s \<and> length s \<le> 640 then ascii_int s else int_rest s)"

section \<open>The parsed document\<close>

text \<open>
  What the program reads of an entry of the parsed document: \<open>element.name\<close> (absent or
  \<open>None\<close> for text and other non-element content), \<open>element.get("class")\<close>, the
  entry's own text when it is a string, and \<open>element.children\<close>. The type is that of
  the duck-typed accesses of \<open>_build_tree\<close>: it has more values than the parsing
  library produces, where an entry without a name is a string with no children and the
  document object at the top is named \<open>[document]\<close>. Comments and other content
  that the library keeps apart from text are not modelled.
\<close>

datatype element =
  Element (el_name: "string option") (el_class: "string list option")
          (el_string: string) (el_children: "element list")

section \<open>Nodes and the store\<close>

text \<open>
  A node is the dict \<open>{"tag", "classes", "children", "parent"}\<close>. Nodes are
  objects: \<open>children\<close> and \<open>parent\<close> hold references, and \<open>children\<close> is appended to
  after the node was handed to its children as their parent. The store is the list of
  all node objects created so far; a reference is an index into it.
\<close>

record node =
  tag :: string
  classes :: "string list"
  children :: "nat list"
  parent :: "nat option"

type_synonym heap = "node list"

section \<open>HTMLParser\<close>

text \<open>
  \<open>_build_tree(element, parent)\<close>. The result is the reference of the new node, or
  \<open>None\<close>; \<open>build_children\<close> is the \<open>for child in element.children\<close> loop of the
  node at reference \<open>a\<close>.
\<close>

fun build_tree :: "element \<Rightarrow> nat option \<Rightarrow> heap \<Rightarrow> nat option \<times> heap"
and build_children :: "element list \<Rightarrow> nat \<Rightarrow> heap \<Rightarrow> heap" where
  "build_tree (Element nm cl s cs) par h =
     (case nm of
        None \<Rightarrow> (None, h)
      | Some n \<Rightarrow>
          (let a = length h;
               h1 = h @ [\<lparr>tag = n, classes = (case cl of None \<Rightarrow> [] | Some c \<Rightarrow> c),
                          children = [], parent = par\<rparr>]
           in (Some a, build_children cs a h1)))"
| "build_children [] a h = h"
| "build_children (c # cs) a h =
     (case build_tree c (Some a) h of
        (None, h') \<Rightarrow> build_children cs a h'
      | (Some ca, h') \<Rightarrow>
          build_children cs a (h'[a := (h' ! a)\<lparr>children := children (h' ! a) @ [ca]\<rparr>]))"

text \<open>
  \<open>export_json\<close>. \<open>remove_parent\<close> copies a node without its \<open>parent\<close> key and
  replaces \<open>children\<close> by the copies of the children. It follows references, so on a
  store with a cycle along \<open>children\<close> it would not return: the first argument bounds the
  depth of the recursion, and \<open>None\<close> says that the bound was reached (the interpreter
  has such a bound of its own, its recursion limit).
\<close>

datatype json = JString string | JArray "json list" | JObject "(string \<times> json) list"

fun remove_parent :: "nat \<Rightarrow> heap \<Rightarrow> nat \<Rightarrow> json option" where
  "remove_parent 0 h a = None"
| "remove_parent (Suc fuel) h a =
     (case those (map (remove_parent fuel h) (children (h ! a))) of
        None \<Rightarrow> None
      | Some cs \<Rightarrow>
          Some (JObject [(''tag'', JString (tag (h ! a))),
                         (''classes'', JArray (map JString (classes (h ! a)))),
                         (''children'', JArray cs)]))"

text \<open>
  \<open>json.dump(obj, f, indent=2)\<close> on strings, lists and dicts: what is written to the
  file. The encoder of string literals (\<open>"..."\<close> with the escapes of the \<open>json\<close>
  module) is the parameter \<open>enc\<close>.
\<close>

definition nl_indent :: "nat \<Rightarrow> string" where
  "nl_indent lvl = newline # replicate (2 * lvl) CHR '' ''"

fun json_dumps :: "(string \<Rightarrow> string) \<Rightarrow> nat \<Rightarrow> json \<Rightarrow> string" where
  "json_dumps enc lvl (JString s) = enc s"
| "json_dumps enc lvl (JArray xs) =
     (if xs = [] then ''[]''
      else ''['' @ nl_indent (Suc lvl) @
           join ('','' @ nl_indent (Suc lvl)) (map (json_dumps enc (Suc lvl)) xs) @
           nl_indent lvl @ '']'')"
| "json_dumps enc lvl (JObject kvs) =
     (if kvs = [] then ''{}''
      else ''{'' @ nl_indent (Suc lvl) @
           join ('','' @ nl_indent (Suc lvl))
             (map (\<lambda>kv. enc (fst kv) @ '': '' @ json_dumps enc (Suc lvl) (snd kv)) kvs) @
           nl_indent lvl @ ''}'')"

datatype error = AttributeError

text \<open>
  \<open>export_json\<close> on \<open>self.root\<close>: the text written to the file. With \<open>self.root\<close>
  being \<open>None\<close>, \<open>remove_parent(None)\<close> raises \<open>AttributeError\<close>.
\<close>

definition export_json ::
  "(string \<Rightarrow> string) \<Rightarrow> nat \<Rightarrow> heap \<Rightarrow> nat option \<Rightarrow> (error + string) option" where
  "export_json enc fuel h root =
     (case root of
        None \<Rightarrow> Some (Inl AttributeError)
      | Some r \<Rightarrow>
          (case remove_parent fuel h r of
             None \<Rightarrow> None
           | Some tree_without_parents \<Rightarrow> Some (Inr (json_dumps enc 0 tree_without_parents))))"

text \<open>
  \<open>extract_text_by_blocks\<close> reads the parsed document through two operations of the
  parsing library: \<open>find_all(True)\<close>, every element below an entry in document order,
  and \<open>get_text(strip=True)\<close>, the stripped, non-empty strings below an element, joined
  without a separator.
\<close>

fun descendants :: "element \<Rightarrow> element list" where
  "descendants (Element nm cl s cs) = concat (map (\<lambda>c. c # descendants c) cs)"

definition find_all :: "element \<Rightarrow> element list" where
  "find_all e = filter (\<lambda>d. el_name d \<noteq> None) (descendants e)"

definition get_text :: "element \<Rightarrow> string" where
  "get_text e =
     concat (filter (\<lambda>s. s \<noteq> [])
       (map (\<lambda>d. py_strip (el_string d)) (filter (\<lambda>d. el_name d = None) (descendants e))))"

text \<open>\<open>blocks.setdefault(k, []).append(v)\<close> on a dict held in insertion order.\<close>

fun setdefault_append ::
  "(string \<times> string list) list \<Rightarrow> string \<Rightarrow> string \<Rightarrow> (string \<times> string list) list" where
  "setdefault_append [] k v = [(k, [v])]"
| "setdefault_append ((k', vs) # rest) k v =
     (if k' = k then (k', vs @ [v]) # rest else (k', vs) # setdefault_append rest k v)"

definition extract_text_by_blocks :: "element \<Rightarrow> (string \<times> string list) list" where
  "extract_text_by_blocks soup =
     foldl (\<lambda>blocks block.
              case el_name block of
                None \<Rightarrow> blocks
              | Some n \<Rightarrow>
                  if n \<in> set [''div'', ''p'', ''span''] then
                    (let block_text = get_text block
                     in if block_text \<noteq> [] then setdefault_append blocks n block_text
                        else blocks)
                  else blocks)
           [] (find_all soup)"

section \<open>Presentation\<close>

definition format_node_identifier :: "node \<Rightarrow> string" where
  "format_node_identifier node =
     (let cls = join '' '' (classes node)
      in if cls \<noteq> [] then tag node @ '' ('' @ cls @ '')'' else tag node)"

text \<open>The branch glyphs and the continuation indent, with the bytes the source file has.\<close>

definition glyph_last :: string where
  "glyph_last = [CHR 0xE2, CHR 0x80, CHR 0x9A, CHR 0xC3, CHR 0xAE, CHR 0xC3, CHR 0xAE,
                 CHR 0xE2, CHR 0x80, CHR 0x9A, CHR 0xC3, CHR 0xAE, CHR 0xC3, CHR 0x84,
                 CHR 0xE2, CHR 0x80, CHR 0x9A, CHR 0xC3, CHR 0xAE, CHR 0xC3, CHR 0x84,
                 CHR 0x20]"

definition glyph_mid :: string where
  "glyph_mid = [CHR 0xE2, CHR 0x80, CHR 0x9A, CHR 0xC3, CHR 0xAE, CHR 0xC3, CHR 0xBA,
                CHR 0xE2, CHR 0x80, CHR 0x9A, CHR 0xC3, CHR 0xAE, CHR 0xC3, CHR 0x84,
                CHR 0xE2, CHR 0x80, CHR 0x9A, CHR 0xC3, CHR 0xAE, CHR 0xC3, CHR 0x84,
                CHR 0x20]"

definition indent_mid :: string where
  "indent_mid = [CHR 0xE2, CHR 0x80, CHR 0x9A, CHR 0xC3, CHR 0xAE, CHR 0xC3, CHR 0x87,
                 CHR 0x20, CHR 0x20, CHR 0x20]"

text \<open>
  \<open>tree_to_string(node, prefix, is_last)\<close>, with the bound on the depth as for
  \<open>remove_parent\<close>. The fold is the loop over \<open>enumerate(children)\<close>.
\<close>

fun tree_to_string :: "nat \<Rightarrow> heap \<Rightarrow> nat \<Rightarrow> string \<Rightarrow> bool \<Rightarrow> string option" where
  "tree_to_string 0 h a pfx is_last = None"
| "tree_to_string (Suc fuel) h a pfx is_last =
     (let classes_str = (if classes (h ! a) \<noteq> []
                         then '' ('' @ join '' '' (classes (h ! a)) @ '')'' else []);
          tree_str = pfx @ (if is_last then glyph_last else glyph_mid) @
                     tag (h ! a) @ classes_str;
          chs = children (h ! a)
      in foldl (\<lambda>acc (i, child).
                  case acc of
                    None \<Rightarrow> None
                  | Some str \<Rightarrow>
                      (case tree_to_string fuel h child
                              (pfx @ (if is_last then ''    '' else indent_mid))
                              (int i = int (length chs) - 1) of
                         None \<Rightarrow> None
                       | Some sub \<Rightarrow> Some (str @ [newline] @ sub)))
               (Some tree_str) (enumerate 0 chs))"

section \<open>HTMLExplorer\<close>

text \<open>
  The explorer holds \<open>current_node\<close>, a reference. What a command prints is returned as
  a list of output events, one for each \<open>print\<close> of the source (\<open>SearchResults\<close> is
  the heading followed by one numbered line for each identifier it carries).
\<close>

datatype printed =
  AlreadyAtRoot | IndexOutOfRange | NoMatchingClass | SearchResults "string list" | NoMatchesFound

text \<open>
  \<open>change_directory(arg)\<close>: the new \<open>current_node\<close> and what was printed. The first
  argument is the parameter of \<open>int\<close>.
\<close>

definition change_directory ::
  "(string \<Rightarrow> int option) \<Rightarrow> heap \<Rightarrow> nat \<Rightarrow> string \<Rightarrow> nat \<times> printed list" where
  "change_directory int_rest h current_node arg =
     (let chs = children (h ! current_node)
      in if arg = ''..'' then
           (case parent (h ! current_node) of
              Some p \<Rightarrow> (p, [])
            | None \<Rightarrow> (current_node, [AlreadyAtRoot]))
         else
           (case py_int int_rest arg of
              Some idx \<Rightarrow>
                if 0 \<le> idx \<and> idx < int (length chs) then (chs ! nat idx, [])
                else (current_node, [IndexOutOfRange])
            | None \<Rightarrow>
                (let matching_children =
                       filter (\<lambda>child. py_in arg (join '' '' (classes (h ! child)))) chs
                 in if matching_children \<noteq> [] then (matching_children ! 0, [])
                    else (current_node, [NoMatchingClass]))))"

text \<open>
  \<open>search_tree\<close>, the inner function of \<open>search\<close>: it appends to the local list
  \<open>results\<close>, which is passed through. The first argument is the parameter of
  \<open>str.lower\<close>.
\<close>

fun search_tree ::
  "(string \<Rightarrow> string) \<Rightarrow> nat \<Rightarrow> heap \<Rightarrow> string \<Rightarrow> nat \<Rightarrow> nat list \<Rightarrow> nat list option" where
  "search_tree lower_rest 0 h query a results = None"
| "search_tree lower_rest (Suc fuel) h query a results =
     (let identifier = py_lower lower_rest (format_node_identifier (h ! a));
          results1 = (if py_in query identifier then results @ [a] else results)
      in foldl (\<lambda>acc child.
                  case acc of
                    None \<Rightarrow> None
                  | Some rs \<Rightarrow> search_tree lower_rest fuel h query child rs)
               (Some results1) (children (h ! a)))"

text \<open>
  What a method returns. \<open>search\<close> has no \<open>return\<close> statement: it returns \<open>None\<close>,
  and the nodes it found are only printed, as their identifiers.
\<close>

datatype pyvalue = PyNone | PyNodes "nat list"

definition search ::
  "(string \<Rightarrow> string) \<Rightarrow> nat \<Rightarrow> heap \<Rightarrow> nat \<Rightarrow> string \<Rightarrow> (pyvalue \<times> printed list) option" where
  "search lower_rest fuel h current_node query =
     (case search_tree lower_rest fuel h (py_lower lower_rest query) current_node [] of
        None \<Rightarrow> None
      | Some results \<Rightarrow>
          Some (PyNone,
                if results \<noteq> []
                then [SearchResults (map (\<lambda>a. format_node_identifier (h ! a)) results)]
                else [NoMatchesFound]))"

section \<open>Reachability and the linking invariant\<close>

text \<open>The nodes reachable from \<open>r\<close> along \<open>children\<close>.\<close>

inductive_set reach :: "heap \<Rightarrow> nat \<Rightarrow> nat set" for h :: heap and r :: nat where
  root: "r \<in> reach h r"
| child: "a \<in> reach h r \<Longrightarrow> c \<in> set (children (h ! a)) \<Longrightarrow> c \<in> reach h r"

text \<open>
  The invariant of the construction, for the nodes created from reference \<open>n0\<close> on:
  every child points back to the node that lists it, and every node outside the set
  \<open>S\<close> of nodes still waiting to be appended is listed by the node its \<open>parent\<close>
  names.
\<close>

definition linked :: "nat \<Rightarrow> nat set \<Rightarrow> heap \<Rightarrow> bool" where
  "linked n0 S h \<longleftrightarrow>
     (\<forall>a. n0 \<le> a \<and> a < length h \<longrightarrow>
        (\<forall>c \<in> set (children (h ! a)). n0 \<le> c \<and> c < length h \<and> parent (h ! c) = Some a) \<and>
        (a \<notin> S \<longrightarrow> (\<forall>p. parent (h ! a) = Some p \<longrightarrow>
                      n0 \<le> p \<and> p < length h \<and> a \<in> set (children (h ! p)))))"


section \<open>Subtrees of the store\<close>

text \<open>
  The subtree below a reference, unfolded: every node with its reference, its tag and its
  classes. \<open>tree_at h a t\<close> says that the nodes reachable from \<open>a\<close> along
  \<open>children\<close> form the finite tree \<open>t\<close>.
\<close>

datatype ntree =
  NTree (addr: nat) (ntag: string) (nclasses: "string list") (kids: "ntree list")

fun tree_at :: "heap \<Rightarrow> nat \<Rightarrow> ntree \<Rightarrow> bool" where
  "tree_at h a (NTree b tg cl ks) =
     (a = b \<and> a < length h \<and> tag (h ! a) = tg \<and> classes (h ! a) = cl \<and>
      list_all2 (tree_at h) (children (h ! a)) ks)"

text \<open>The number of nodes of a subtree, and its nodes in pre-order.\<close>

fun nodes :: "ntree \<Rightarrow> nat" where
  "nodes (NTree a tg cl ks) = Suc (sum_list (map nodes ks))"

fun preorder :: "ntree \<Rightarrow> ntree list" where
  "preorder (NTree a tg cl ks) = NTree a tg cl ks # concat (map preorder ks)"

text \<open>The shape and content of a subtree: the tree without the references.\<close>

datatype shape = Shape string "string list" "shape list"

fun shape_of :: "ntree \<Rightarrow> shape" where
  "shape_of (NTree a tg cl ks) = Shape tg cl (map shape_of ks)"

fun json_of :: "shape \<Rightarrow> json" where
  "json_of (Shape tg cl ks) =
     JObject [(''tag'', JString tg), (''classes'', JArray (map JString cl)),
              (''children'', JArray (map json_of ks))]"

text \<open>A JSON value has a field named \<open>k\<close>, at any depth.\<close>

fun has_key :: "string \<Rightarrow> json \<Rightarrow> bool" where
  "has_key k (JString s) = False"
| "has_key k (JArray xs) = list_ex (has_key k) xs"
| "has_key k (JObject kvs) = list_ex (\<lambda>kv. fst kv = k \<or> has_key k (snd kv)) kvs"

text \<open>The lines of a text: the pieces between line breaks.\<close>

fun split_lines :: "string \<Rightarrow> string list" where
  "split_lines [] = ['''']"
| "split_lines (c # cs) =
     (if c = newline then [] # split_lines cs
      else (c # hd (split_lines cs)) # tl (split_lines cs))"

text \<open>What \<open>tree_to_string\<close> shows of one node after the prefix and the glyph.\<close>

definition node_label :: "string \<Rightarrow> string list \<Rightarrow> string" where
  "node_label tg cl = tg @ (if cl \<noteq> [] then '' ('' @ join '' '' cl @ '')'' else [])"

text \<open>The lines of the rendering of a subtree, one for each node.\<close>

fun render_lines :: "ntree \<Rightarrow> string \<Rightarrow> bool \<Rightarrow> string list"
and render_kids :: "ntree list \<Rightarrow> string \<Rightarrow> string list" where
  "render_lines (NTree a tg cl ks) pfx is_last =
     (pfx @ (if is_last then glyph_last else glyph_mid) @ node_label tg cl) #
     render_kids ks (pfx @ (if is_last then ''    '' else indent_mid))"
| "render_kids [] pfx = []"
| "render_kids (k # ks) pfx = render_lines k pfx (ks = []) @ render_kids ks pfx"

text \<open>A tag or a class with no line break in it, throughout a subtree.\<close>

fun one_line :: "ntree \<Rightarrow> bool" where
  "one_line (NTree a tg cl ks) =
     (newline \<notin> set tg \<and> list_all (\<lambda>c. newline \<notin> set c) cl \<and> list_all one_line ks)"

text \<open>
  The entries of a document that are elements with elements only above them, counted.
\<close>

fun visible :: "element \<Rightarrow> nat" where
  "visible (Element nm cl s cs) =
     (case nm of None \<Rightarrow> 0 | Some n \<Rightarrow> Suc (sum_list (map visible cs)))"

text \<open>A document has an element: some entry of it has a name.\<close>

fun has_element :: "element \<Rightarrow> bool" where
  "has_element (Element nm cl s cs) = (nm \<noteq> None \<or> list_ex has_element cs)"

text \<open>The test of \<open>search_tree\<close> on the node at a reference, for a lowered query.\<close>

definition matches :: "(string \<Rightarrow> string) \<Rightarrow> heap \<Rightarrow> string \<Rightarrow> nat \<Rightarrow> bool" where
  "matches lower_rest h query a =
     py_in query (py_lower lower_rest (format_node_identifier (h ! a)))"

section \<open>Documents\<close>

text \<open>
  The parsed form of \<open><div class="a"><p>X</p><span class="b">Y</span></div>\<close>: the
  document object, named \<open>[document]\<close>, over the \<open>div\<close>.
\<close>

definition scenario :: element where
  "scenario =
     Element (Some ''[document]'') None [] [
       Element (Some ''div'') (Some [''a'']) [] [
         Element (Some ''p'') None [] [Element None None ''X'' []],
         Element (Some ''span'') (Some [''b'']) [] [Element None None ''Y'' []]]]"

definition scenario_heap :: heap where
  "scenario_heap =
     [\<lparr>tag = ''[document]'', classes = [], children = [1], parent = None\<rparr>,
      \<lparr>tag = ''div'', classes = [''a''], children = [2, 3], parent = Some 0\<rparr>,
      \<lparr>tag = ''p'', classes = [], children = [], parent = Some 1\<rparr>,
      \<lparr>tag = ''span'', classes = [''b''], children = [], parent = Some 1\<rparr>]"

definition scenario_tree :: ntree where
  "scenario_tree =
     NTree 0 ''[document]'' [] [
       NTree 1 ''div'' [''a''] [NTree 2 ''p'' [] [], NTree 3 ''span'' [''b''] []]]"

text \<open>A list with three items, two of them of class \<open>item\<close>.\<close>

definition menu_heap :: heap where
  "menu_heap =
     [\<lparr>tag = ''ul'', classes = [], children = [1, 2, 3], parent = None\<rparr>,
      \<lparr>tag = ''li'', classes = [''nav''], children = [], parent = Some 0\<rparr>,
      \<lparr>tag = ''li'', classes = [''x'', ''item''], children = [], parent = Some 0\<rparr>,
      \<lparr>tag = ''li'', classes = [''item''], children = [], parent = Some 0\<rparr>]"

text \<open>Two list items with the same tag, classes and children, at different references.\<close>

definition twins_heap :: heap where
  "twins_heap =
     [\<lparr>tag = ''ul'', classes = [], children = [1, 3], parent = None\<rparr>,
      \<lparr>tag = ''li'', classes = [''item''], children = [2], parent = Some 0\<rparr>,
      \<lparr>tag = ''a'', classes = [], children = [], parent = Some 1\<rparr>,
      \<lparr>tag = ''li'', classes = [''item''], children = [4], parent = Some 0\<rparr>,
      \<lparr>tag = ''a'', classes = [], children = [], parent = Some 3\<rparr>]"

text \<open>An entry without a name that has an element among its children.\<close>

definition wrapped :: element where
  "wrapped =
     Element (Some ''div'') None [] [
       Element None None [] [Element (Some ''p'') None [] []]]"

text \<open>The parsed form of the document \<open>hello\<close>: the document object over a string.\<close>

definition text_document :: element where
  "text_document = Element (Some ''[document]'') None [] [Element None None ''hello'' []]"

section \<open>The builder keeps parents and children consistent\<close>

lemma build_frame:
  "build_tree e par h = (r, h') \<Longrightarrow>
     length h \<le> length h' \<and> (\<forall>i<length h. parent (h' ! i) = parent (h ! i)) \<and>
     (case r of None \<Rightarrow> h' = h | Some a \<Rightarrow> a = length h \<and> a < length h' \<and> parent (h' ! a) = par)"
  "a < length h \<Longrightarrow> build_children cs a h = h'' \<Longrightarrow>
     length h \<le> length h'' \<and> (\<forall>i<length h. parent (h'' ! i) = parent (h ! i))"
proof (induction e par h and cs a h arbitrary: r h' and h'' rule: build_tree_build_children.induct)
  case (1 nm cl s cs par h)
  show ?case
  proof (cases nm)
    case None
    with 1(2) show ?thesis by simp
  next
    case (Some n)
    define h1 where "h1 = h @ [\<lparr>tag = n, classes = (case cl of None \<Rightarrow> [] | Some c \<Rightarrow> c),
                          children = [], parent = par\<rparr>]"
    have r: "r = Some (length h)" and h': "h' = build_children cs (length h) h1"
      using 1(2) Some by (simp_all add: Let_def h1_def)
    have lt: "length h < length h1" by (simp add: h1_def)
    from 1(1)[OF Some refl h1_def lt h'[symmetric]]
    have ih: "length h1 \<le> length h'" "\<forall>i<length h1. parent (h' ! i) = parent (h1 ! i)"
      by simp_all
    have "\<forall>i<length h. parent (h' ! i) = parent (h ! i)"
      using ih(2) by (simp add: h1_def nth_append)
    moreover have "parent (h' ! length h) = par"
      using ih(2) lt by (simp add: h1_def nth_append)
    ultimately show ?thesis using r ih(1) lt by simp
  qed
next
  case (2 a h)
  then show ?case by simp
next
  case (3 c cs a h)
  obtain rc hc where bc: "build_tree c (Some a) h = (rc, hc)" by (cases "build_tree c (Some a) h")
  note ihc = 3(1)[OF bc]
  show ?case
  proof (cases rc)
    case None
    then have "hc = h" using ihc by simp
    moreover have "build_children cs a hc = h''" using 3(5) bc None by simp
    ultimately show ?thesis using 3(2)[OF bc[symmetric] None] 3(4) by simp
  next
    case (Some ca)
    define hu where "hu = hc[a := (hc ! a)\<lparr>children := children (hc ! a) @ [ca]\<rparr>]"
    have e: "build_children cs a hu = h''" using 3(5) bc Some by (simp add: hu_def)
    have la: "a < length hu" using ihc 3(4) by (simp add: hu_def)
    from 3(3)[OF bc[symmetric] Some la[unfolded hu_def] e[unfolded hu_def]]
    have ih: "length hu \<le> length h''" "\<forall>i<length hu. parent (h'' ! i) = parent (hu ! i)"
      by (simp_all add: hu_def)
    have "a < length hc" using ihc 3(4) by simp
    then have "\<forall>i<length hc. parent (hu ! i) = parent (hc ! i)"
      by (auto simp add: hu_def nth_list_update)
    then show ?thesis using ih ihc by (simp add: hu_def)
  qed
qed

lemma linked_alloc:
  assumes L: "linked n0 S h" and n0: "n0 \<le> length h"
  shows "linked n0 (insert (length h) S) (h @ [\<lparr>tag = n, classes = cl, children = [], parent = par\<rparr>])"
proof -
  define h1 where "h1 = h @ [\<lparr>tag = n, classes = cl, children = [], parent = par\<rparr>]"
  have len: "length h1 = Suc (length h)" by (simp add: h1_def)
  have old: "h1 ! x = h ! x" if "x < length h" for x using that by (simp add: h1_def nth_append)
  have new: "children (h1 ! length h) = []" by (simp add: h1_def)
  have "linked n0 (insert (length h) S) h1"
    unfolding linked_def
  proof (intro allI impI conjI ballI)
    fix x c
    assume x: "n0 \<le> x \<and> x < length h1" and c: "c \<in> set (children (h1 ! x))"
    have xl: "x < length h"
    proof (rule ccontr)
      assume "\<not> x < length h"
      then have "x = length h" using x len by simp
      then show False using c new by simp
    qed
    then have "c \<in> set (children (h ! x))" using c old by simp
    then have o: "n0 \<le> c \<and> c < length h \<and> parent (h ! c) = Some x"
      using L x xl unfolding linked_def by blast
    show "n0 \<le> c" using o by simp
    show "c < length h1" using o len by simp
    show "parent (h1 ! c) = Some x" using o old by simp
  next
    fix x p
    assume x: "n0 \<le> x \<and> x < length h1" and xs: "x \<notin> insert (length h) S"
      and p: "parent (h1 ! x) = Some p"
    have xl: "x < length h" using x xs len by auto
    have "parent (h ! x) = Some p" using p old[OF xl] by simp
    moreover have "x \<notin> S" using xs by simp
    ultimately have o: "n0 \<le> p \<and> p < length h \<and> x \<in> set (children (h ! p))"
      using L x xl unfolding linked_def by blast
    show "n0 \<le> p" using o by simp
    show "p < length h1" using o len by simp
    show "x \<in> set (children (h1 ! p))" using o old by simp
  qed
  then show ?thesis by (simp add: h1_def)
qed

lemma linked_append_child:
  assumes L: "linked n0 (insert ca S) hc" and a: "n0 \<le> a" "a < length hc"
    and ca: "n0 \<le> ca" "ca < length hc" "parent (hc ! ca) = Some a"
  shows "linked n0 S (hc[a := (hc ! a)\<lparr>children := children (hc ! a) @ [ca]\<rparr>])"
proof -
  define hu where "hu = hc[a := (hc ! a)\<lparr>children := children (hc ! a) @ [ca]\<rparr>]"
  have len: "length hu = length hc" by (simp add: hu_def)
  have par: "parent (hu ! x) = parent (hc ! x)" if "x < length hc" for x
    using that a by (cases "x = a") (simp_all add: hu_def)
  have chs: "set (children (hu ! x)) = (if x = a then insert ca (set (children (hc ! x))) else set (children (hc ! x)))"
    if "x < length hc" for x
    using that a by (cases "x = a") (simp_all add: hu_def)
  have "linked n0 S hu"
    unfolding linked_def
  proof (intro allI impI conjI ballI)
    fix x c
    assume x: "n0 \<le> x \<and> x < length hu" and c: "c \<in> set (children (hu ! x))"
    then have xl: "x < length hc" using len by simp
    have cc: "(c = ca \<and> x = a) \<or> c \<in> set (children (hc ! x))"
      using c chs[OF xl] by (auto split: if_splits)
    have old: "n0 \<le> c \<and> c < length hc \<and> parent (hc ! c) = Some x"
    proof (cases "c = ca \<and> x = a")
      case True then show ?thesis using ca by simp
    next
      case False
      then have "c \<in> set (children (hc ! x))" using cc by blast
      then show ?thesis using L x xl unfolding linked_def by blast
    qed
    show "n0 \<le> c" using old by simp
    show "c < length hu" using old len by simp
    show "parent (hu ! c) = Some x" using old par by simp
  next
    fix x p
    assume x: "n0 \<le> x \<and> x < length hu" and xs: "x \<notin> S" and p: "parent (hu ! x) = Some p"
    then have xl: "x < length hc" using len by simp
    have p': "parent (hc ! x) = Some p" using p par[OF xl] by simp
    have old: "n0 \<le> p \<and> p < length hc \<and> x \<in> set (children (hu ! p))"
    proof (cases "x = ca")
      case True
      then have "p = a" using p' ca by simp
      then show ?thesis using a chs[of a] True by simp
    next
      case False
      then have "x \<notin> insert ca S" using xs by simp
      then have o: "n0 \<le> p \<and> p < length hc \<and> x \<in> set (children (hc ! p))"
        using L x xl p' unfolding linked_def by blast
      then show ?thesis using chs[of p] by auto
    qed
    show "n0 \<le> p" using old by simp
    show "p < length hu" using old len by simp
    show "x \<in> set (children (hu ! p))" using old by simp
  qed
  then show ?thesis by (simp add: hu_def)
qed

lemma build_linked:
  "build_tree e par h = (r, h') \<Longrightarrow> n0 \<le> length h \<Longrightarrow> linked n0 S h \<Longrightarrow>
     linked n0 (case r of None \<Rightarrow> S | Some a \<Rightarrow> insert a S) h'"
  "build_children cs a h = h'' \<Longrightarrow> n0 \<le> a \<Longrightarrow> a < length h \<Longrightarrow> linked n0 S h \<Longrightarrow>
     linked n0 S h''"
proof (induction e par h and cs a h arbitrary: r h' S and h'' S rule: build_tree_build_children.induct)
  case (1 nm cl s cs par h)
  show ?case
  proof (cases nm)
    case None
    with 1(2,4) show ?thesis by simp
  next
    case (Some n)
    define h1 where "h1 = h @ [\<lparr>tag = n, classes = (case cl of None \<Rightarrow> [] | Some c \<Rightarrow> c),
                          children = [], parent = par\<rparr>]"
    have r: "r = Some (length h)" and h': "build_children cs (length h) h1 = h'"
      using 1(2) Some by (simp_all add: Let_def h1_def)
    have lt: "length h < length h1" by (simp add: h1_def)
    have L1: "linked n0 (insert (length h) S) h1"
      unfolding h1_def by (rule linked_alloc[OF 1(4) 1(3)])
    from 1(1)[OF Some refl h1_def h' 1(3) lt L1]
    show ?thesis using r by simp
  qed
next
  case (2 a h)
  then show ?case by simp
next
  case (3 c cs a h)
  obtain rc hc where bc: "build_tree c (Some a) h = (rc, hc)" by (cases "build_tree c (Some a) h")
  note fr = build_frame(1)[OF bc]
  have n0h: "n0 \<le> length h" using 3(5,6) by simp
  note ihc = 3(1)[OF bc n0h 3(7)]
  show ?case
  proof (cases rc)
    case None
    then have "hc = h" using fr by simp
    moreover have "build_children cs a hc = h''" using 3(4) bc None by simp
    ultimately show ?thesis using 3(2)[OF bc[symmetric] None _ 3(5)] 3(6,7) by simp
  next
    case (Some ca)
    define hu where "hu = hc[a := (hc ! a)\<lparr>children := children (hc ! a) @ [ca]\<rparr>]"
    have e: "build_children cs a hu = h''" using 3(4) bc Some by (simp add: hu_def)
    have ca: "ca = length h" "ca < length hc" "parent (hc ! ca) = Some a"
      using fr Some by auto
    have ahc: "a < length hc" using fr 3(6) by simp
    have la: "a < length hu" using ahc by (simp add: hu_def)
    have Lc: "linked n0 (insert ca S) hc" using ihc Some by simp
    have Lu: "linked n0 S hu"
      unfolding hu_def
      by (rule linked_append_child[OF Lc 3(5) ahc _ ca(2) ca(3)]) (use ca(1) n0h in simp)
    from 3(3)[OF bc[symmetric] Some e[unfolded hu_def] 3(5) la[unfolded hu_def] Lu[unfolded hu_def]]
    show ?thesis .
  qed
qed

lemma reach_linked:
  assumes L: "linked n0 S h" and r: "n0 \<le> r" "r < length h" and a: "a \<in> reach h r"
  shows "n0 \<le> a \<and> a < length h \<and> (a = r \<or> (\<exists>x \<in> reach h r. parent (h ! a) = Some x))"
  using a
proof (induction rule: reach.induct)
  case root
  then show ?case using r by simp
next
  case (child a c)
  then have "n0 \<le> a \<and> a < length h" by simp
  then have "n0 \<le> c \<and> c < length h \<and> parent (h ! c) = Some a"
    using L child.hyps(2) unfolding linked_def by blast
  then show ?case using child.hyps(1) by blast
qed

text \<open>
  Claim C1. In the store left by \<open>_build_tree\<close> called with no parent, every node
  reachable from the returned root whose \<open>parent\<close> is not \<open>None\<close> is, as a
  reference, in the \<open>children\<close> of the node its \<open>parent\<close> names, which is itself
  reachable from the root; and exactly one node reachable from the root has no parent.
\<close>

theorem build_tree_parent_consistent:
  assumes b: "build_tree e None h0 = (Some r, h)"
  shows "(\<forall>a \<in> reach h r. \<forall>p. parent (h ! a) = Some p \<longrightarrow>
            p \<in> reach h r \<and> a \<in> set (children (h ! p))) \<and>
         (\<exists>!a. a \<in> reach h r \<and> parent (h ! a) = None)"
proof -
  have fr: "r = length h0" "r < length h" "parent (h ! r) = None"
    using build_frame(1)[OF b] by auto
  have L0: "linked (length h0) {} h0" unfolding linked_def by (intro allI impI) linarith
  have L: "linked (length h0) {r} h"
    using build_linked(1)[OF b _ L0] by simp
  have R: "length h0 \<le> a \<and> a < length h \<and> (a = r \<or> (\<exists>x \<in> reach h r. parent (h ! a) = Some x))"
    if "a \<in> reach h r" for a
    using reach_linked[OF L _ fr(2) that] fr(1) by simp
  have one: "\<forall>a \<in> reach h r. \<forall>p. parent (h ! a) = Some p \<longrightarrow>
            p \<in> reach h r \<and> a \<in> set (children (h ! p))"
  proof (intro ballI allI impI)
    fix a p assume a: "a \<in> reach h r" and p: "parent (h ! a) = Some p"
    have ne: "a \<noteq> r" using p fr(3) by auto
    then have "p \<in> reach h r" using R[OF a] p by auto
    moreover have "a \<in> set (children (h ! p))"
      using L R[OF a] ne p unfolding linked_def by blast
    ultimately show "p \<in> reach h r \<and> a \<in> set (children (h ! p))" by simp
  qed
  have two: "\<exists>!a. a \<in> reach h r \<and> parent (h ! a) = None"
  proof (rule ex1I[of _ r])
    show "r \<in> reach h r \<and> parent (h ! r) = None" using fr(3) reach.root by simp
  next
    fix a assume "a \<in> reach h r \<and> parent (h ! a) = None"
    then show "a = r" using R[of a] by auto
  qed
  show ?thesis using one two by blast
qed

theorem build_tree_parent_consistent_witness:
  "build_tree scenario None [] = (Some 0, scenario_heap) \<and>
   3 \<in> reach scenario_heap 0 \<and> parent (scenario_heap ! 3) = Some 1 \<and>
   1 \<in> reach scenario_heap 0 \<and> 3 \<in> set (children (scenario_heap ! 1)) \<and>
   (\<exists>!a. a \<in> reach scenario_heap 0 \<and> parent (scenario_heap ! a) = None)"
proof -
  have b: "build_tree scenario None [] = (Some 0, scenario_heap)"
    by (simp add: scenario_def scenario_heap_def)
  have r1: "1 \<in> reach scenario_heap 0"
    by (rule reach.child[OF reach.root]) (simp add: scenario_heap_def)
  have r3: "3 \<in> reach scenario_heap 0"
    by (rule reach.child[OF r1]) (simp add: scenario_heap_def)
  have p3: "parent (scenario_heap ! 3) = Some 1"
    by (simp add: scenario_heap_def)
  show ?thesis using b r3 p3 build_tree_parent_consistent[OF b] by blast
qed

section \<open>Entries without a name\<close>

lemma build_length:
  "length (snd (build_tree e par h)) = length h + visible e"
  "length (build_children cs a h) = length h + sum_list (map visible cs)"
proof (induction e par h and cs a h rule: build_tree_build_children.induct)
  case (1 nm cl s cs par h)
  then show ?case by (cases nm) (simp_all add: Let_def)
next
  case (2 a h)
  then show ?case by simp
next
  case (3 c cs a h)
  obtain rc hc where bc: "build_tree c (Some a) h = (rc, hc)" by (cases "build_tree c (Some a) h")
  have lc: "length hc = length h + visible c" using 3(1) bc by simp
  show ?case
  proof (cases rc)
    case None
    then show ?thesis using 3(2)[OF bc[symmetric] None] bc lc by simp
  next
    case (Some ca)
    then show ?thesis using 3(3)[OF bc[symmetric] Some] bc lc by simp
  qed
qed

text \<open>
  Claim C2 says that the builder, on an entry without a name, still goes through the
  children of that entry. It does not: \<open>_build_tree\<close> returns \<open>None\<close> before it
  looks at them. In \<open>wrapped\<close>, the \<open>p\<close> inside the name-less entry is never built:
  the store holds the \<open>div\<close> alone, with no children.
\<close>

theorem nameless_children_not_visited_counterexample:
  "el_name (hd (el_children wrapped)) = None \<and>
   map el_name (el_children (hd (el_children wrapped))) = [Some ''p''] \<and>
   build_tree wrapped None [] =
     (Some 0, [\<lparr>tag = ''div'', classes = [], children = [], parent = None\<rparr>])"
  by (simp add: wrapped_def)

text \<open>
  Claim C2, amended. For every entry without a name the builder makes no node, returns
  \<open>None\<close> at once and leaves the store as it was, whatever the entry has below it; the
  loop over the children of the enclosing element goes on with the next child. So
  elements below an entry without a name are not built: a call creates one node for each
  element that has elements only above it.
\<close>

theorem nameless_entry_skipped:
  "(el_name e = None \<longrightarrow>
      build_tree e par h = (None, h) \<and>
      build_children (e # cs) a h = build_children cs a h) \<and>
   length (snd (build_tree e par h)) = length h + visible e"
proof -
  have "build_tree e par h = (None, h) \<and> build_children (e # cs) a h = build_children cs a h"
    if "el_name e = None"
    using that by (cases e) simp
  then show ?thesis using build_length(1) by blast
qed

theorem nameless_entry_skipped_witness:
  "el_name (hd (el_children wrapped)) = None \<and>
   build_tree (hd (el_children wrapped)) (Some 0) scenario_heap = (None, scenario_heap) \<and>
   build_children [hd (el_children wrapped)] 0 scenario_heap = scenario_heap \<and>
   visible wrapped = 1 \<and>
   length (snd (build_tree wrapped None [])) = 1"
proof -
  have n: "el_name (hd (el_children wrapped)) = None" by (simp add: wrapped_def)
  have v: "visible wrapped = 1" by (simp add: wrapped_def)
  note a = nameless_entry_skipped[of "hd (el_children wrapped)" "Some 0" scenario_heap "[]" 0]
  note b = nameless_entry_skipped[of wrapped None "[]"]
  have c: "build_tree (hd (el_children wrapped)) (Some 0) scenario_heap = (None, scenario_heap)"
    "build_children [hd (el_children wrapped)] 0 scenario_heap = scenario_heap"
    using a n by simp_all
  have d: "length (snd (build_tree wrapped None [])) = 1"
    using b[THEN conjunct2] v by simp
  show ?thesis by (intro conjI n c v d)
qed

section \<open>Text blocks\<close>

text \<open>
  Claim C4 says that \<open>extract_text_by_blocks\<close> on the scenario document returns the
  mapping of \<open>p\<close> to \<open>X\<close> and \<open>span\<close> to \<open>Y\<close>, with no entry for \<open>div\<close>. The
  code takes the text of every string below a block, so \<open>div\<close> has the entry \<open>XY\<close>.
\<close>

theorem extract_text_by_blocks_scenario_counterexample:
  "map_of (extract_text_by_blocks scenario) \<noteq> [''p'' \<mapsto> [''X''], ''span'' \<mapsto> [''Y'']] \<and>
   map_of (extract_text_by_blocks scenario) ''div'' = Some [''XY'']"
proof -
  have d: "map_of (extract_text_by_blocks scenario) ''div'' = Some [''XY'']"
    by (simp add: extract_text_by_blocks_def find_all_def get_text_def scenario_def
        py_strip_def is_space_def Let_def)
  have "[''p'' \<mapsto> [''X''], ''span'' \<mapsto> [''Y'']] ''div'' = None" by simp
  with d show ?thesis by (metis option.distinct(1))
qed

text \<open>
  Claim C4, amended. On the scenario document \<open>extract_text_by_blocks\<close> returns, in
  this order, \<open>div\<close> with \<open>XY\<close>, \<open>p\<close> with \<open>X\<close> and \<open>span\<close> with \<open>Y\<close>: the
  text of a block is the text of all the strings below it.
\<close>

theorem extract_text_by_blocks_scenario:
  "extract_text_by_blocks scenario =
     [(''div'', [''XY'']), (''p'', [''X'']), (''span'', [''Y''])]"
  by (simp add: extract_text_by_blocks_def find_all_def get_text_def scenario_def
      py_strip_def is_space_def Let_def)

section \<open>Documents without an element\<close>

lemma build_children_no_element:
  "\<not> list_ex has_element cs \<Longrightarrow> build_children cs a h = h"
proof (induction cs)
  case Nil
  then show ?case by simp
next
  case (Cons c cs)
  then have "el_name c = None" by (cases c) simp
  then have "build_tree c (Some a) h = (None, h)" by (cases c) simp
  then show ?case using Cons by simp
qed

text \<open>
  Claim C5 says that on a document with no element the builder returns \<open>None\<close>. The
  parser is built on the document object, which the parsing library names
  \<open>[document]\<close>: for the document \<open>hello\<close>, which has no element, the builder returns
  a node with that tag and no children.
\<close>

theorem build_tree_text_document_counterexample:
  "\<not> list_ex has_element (el_children text_document) \<and>
   build_tree text_document None [] =
     (Some 0, [\<lparr>tag = ''[document]'', classes = [], children = [], parent = None\<rparr>])"
  by (simp add: text_document_def)

text \<open>
  Claim C5, amended. On a document with no element below its document object, the
  builder returns not \<open>None\<close> but one new node, for the document object itself, with its
  name as tag and no children; nothing is raised. It returns \<open>None\<close> exactly when the
  entry it is called on has itself no name, and this is a value, not an error.
\<close>

theorem build_tree_document_without_elements:
  "(el_name soup = Some n \<and> \<not> list_ex has_element (el_children soup) \<longrightarrow>
      build_tree soup None h =
        (Some (length h),
         h @ [\<lparr>tag = n, classes = (case el_class soup of None \<Rightarrow> [] | Some c \<Rightarrow> c),
                children = [], parent = None\<rparr>])) \<and>
   (fst (build_tree e par h) = None) = (el_name e = None)"
proof (intro conjI impI)
  assume a: "el_name soup = Some n \<and> \<not> list_ex has_element (el_children soup)"
  obtain nm cl s cs where soup: "soup = Element nm cl s cs" by (cases soup)
  have "build_children cs (length h) h1 = h1" for h1
    using a soup by (simp add: build_children_no_element)
  then show "build_tree soup None h =
        (Some (length h),
         h @ [\<lparr>tag = n, classes = (case el_class soup of None \<Rightarrow> [] | Some c \<Rightarrow> c),
                children = [], parent = None\<rparr>])"
    using a soup by (simp add: Let_def)
next
  show "(fst (build_tree e par h) = None) = (el_name e = None)"
    by (cases e) (auto simp: Let_def split: option.splits)
qed

theorem build_tree_document_without_elements_witness:
  "el_name text_document = Some ''[document]'' \<and>
   \<not> list_ex has_element (el_children text_document) \<and>
   build_tree text_document None scenario_heap =
     (Some 4, scenario_heap @
        [\<lparr>tag = ''[document]'', classes = [], children = [], parent = None\<rparr>]) \<and>
   el_name (hd (el_children text_document)) = None \<and>
   fst (build_tree (hd (el_children text_document)) (Some 0) scenario_heap) = None"
proof -
  have n: "el_name text_document = Some ''[document]''"
    and c: "\<not> list_ex has_element (el_children text_document)"
    and k: "el_name (hd (el_children text_document)) = None"
    and cl: "el_class text_document = None"
    by (simp_all add: text_document_def)
  have l: "length scenario_heap = 4" by (simp add: scenario_heap_def)
  note t1 = build_tree_document_without_elements[of text_document "''[document]''" scenario_heap,
      THEN conjunct1, rule_format, OF conjI[OF n c]]
  note t2 = build_tree_document_without_elements[of text_document "''[document]''" scenario_heap
      "hd (el_children text_document)" "Some 0", THEN conjunct2]
  have a: "build_tree text_document None scenario_heap =
     (Some 4, scenario_heap @
        [\<lparr>tag = ''[document]'', classes = [], children = [], parent = None\<rparr>])"
    using t1 by (simp add: cl l)
  have b: "fst (build_tree (hd (el_children text_document)) (Some 0) scenario_heap) = None"
    using t2 k by simp
  show ?thesis by (intro conjI n c a k b)
qed

section \<open>Navigation\<close>

lemma py_in_empty: "py_in [] s"
  by (induction s) simp_all

lemma py_int_dotdot: "py_int int_rest ''..'' = None"
  by (simp add: py_int_def ascii_int_def int_strip_def int_space_def is_digit_def is_ascii_def)

lemma py_int_empty: "py_int int_rest [] = None"
  by (simp add: py_int_def ascii_int_def int_strip_def)

lemma py_int_non_ascii: "\<not> list_all is_ascii s \<Longrightarrow> py_int int_rest s = int_rest s"
  by (simp add: py_int_def)

lemma py_int_separator: "py_int int_rest [CHR 0x1F, CHR ''1''] = None"
  by (simp add: py_int_def ascii_int_def int_strip_def int_space_def is_digit_def is_ascii_def)

lemma filter_first:
  assumes "xs = pre @ c # post" "P c" "\<forall>x \<in> set pre. \<not> P x"
  shows "filter P xs \<noteq> [] \<and> filter P xs ! 0 = c"
  using assms by simp

text \<open>
  Claim C6. A navigation miss leaves \<open>current_node\<close> as it was and prints a failure:
  \<open>cd ..\<close> at a node with no parent, an argument that \<open>int\<close> reads as an index
  outside the children, and an argument that \<open>int\<close> refuses and that no child's joined
  classes contain. \<open>cd ..\<close> at a node with a parent moves to exactly that parent. This
  holds whatever \<open>int\<close> does on the strings where \<open>int_rest\<close> stands for it.
\<close>

theorem change_directory_miss:
  "(parent (h ! cur) = None \<longrightarrow> change_directory int_rest h cur ''..'' = (cur, [AlreadyAtRoot])) \<and>
   (\<forall>p. parent (h ! cur) = Some p \<longrightarrow> change_directory int_rest h cur ''..'' = (p, [])) \<and>
   (\<forall>arg idx. py_int int_rest arg = Some idx \<and> \<not> (0 \<le> idx \<and> idx < int (length (children (h ! cur))))
       \<longrightarrow> change_directory int_rest h cur arg = (cur, [IndexOutOfRange])) \<and>
   (\<forall>arg. arg \<noteq> ''..'' \<and> py_int int_rest arg = None \<and>
       (\<forall>c \<in> set (children (h ! cur)). \<not> py_in arg (join '' '' (classes (h ! c))))
       \<longrightarrow> change_directory int_rest h cur arg = (cur, [NoMatchingClass]))"
proof (intro conjI allI impI)
  assume "parent (h ! cur) = None"
  then show "change_directory int_rest h cur ''..'' = (cur, [AlreadyAtRoot])"
    by (simp add: change_directory_def Let_def)
next
  fix p assume "parent (h ! cur) = Some p"
  then show "change_directory int_rest h cur ''..'' = (p, [])"
    by (simp add: change_directory_def Let_def)
next
  fix arg idx
  assume a: "py_int int_rest arg = Some idx \<and> \<not> (0 \<le> idx \<and> idx < int (length (children (h ! cur))))"
  then have "arg \<noteq> ''..''" using py_int_dotdot by auto
  then show "change_directory int_rest h cur arg = (cur, [IndexOutOfRange])"
    using a by (simp add: change_directory_def Let_def)
next
  fix arg
  assume a: "arg \<noteq> ''..'' \<and> py_int int_rest arg = None \<and>
       (\<forall>c \<in> set (children (h ! cur)). \<not> py_in arg (join '' '' (classes (h ! c))))"
  then have "filter (\<lambda>child. py_in arg (join '' '' (classes (h ! child)))) (children (h ! cur)) = []"
    by (simp add: filter_empty_conv)
  then show "change_directory int_rest h cur arg = (cur, [NoMatchingClass])"
    using a by (simp add: change_directory_def Let_def)
qed

theorem change_directory_miss_witness:
  "change_directory (\<lambda>s. None) scenario_heap 0 ''..'' = (0, [AlreadyAtRoot]) \<and>
   change_directory (\<lambda>s. None) scenario_heap 3 ''..'' = (1, []) \<and>
   py_int (\<lambda>s. None) ''2'' = Some 2 \<and>
   change_directory (\<lambda>s. None) scenario_heap 1 ''2'' = (1, [IndexOutOfRange]) \<and>
   py_int (\<lambda>s. None) ''-1'' = Some (- 1) \<and>
   change_directory (\<lambda>s. None) scenario_heap 1 ''-1'' = (1, [IndexOutOfRange]) \<and>
   py_int (\<lambda>s. None) ''zz'' = None \<and>
   change_directory (\<lambda>s. None) scenario_heap 1 ''zz'' = (1, [NoMatchingClass])"
proof -
  have i2: "py_int (\<lambda>s. None) ''2'' = Some 2" and i1: "py_int (\<lambda>s. None) ''-1'' = Some (- 1)" and iz: "py_int (\<lambda>s. None) ''zz'' = None"
    by (simp_all add: py_int_def ascii_int_def int_strip_def int_space_def is_digit_def is_ascii_def)
  have p0: "parent (scenario_heap ! 0) = None" and p3: "parent (scenario_heap ! 3) = Some 1"
    and c1: "children (scenario_heap ! 1) = [2, 3]"
    and nm: "\<forall>c \<in> set (children (scenario_heap ! 1)).
               \<not> py_in ''zz'' (join '' '' (classes (scenario_heap ! c)))"
    by (simp_all add: scenario_heap_def)
  note t0 = change_directory_miss[where int_rest="\<lambda>s. None" and h=scenario_heap and cur=0]
  note t3 = change_directory_miss[where int_rest="\<lambda>s. None" and h=scenario_heap and cur=3]
  note t1 = change_directory_miss[where int_rest="\<lambda>s. None" and h=scenario_heap and cur=1]
  have a: "change_directory (\<lambda>s. None) scenario_heap 0 ''..'' = (0, [AlreadyAtRoot])" using t0 p0 by blast
  have b: "change_directory (\<lambda>s. None) scenario_heap 3 ''..'' = (1, [])" using t3 p3 by blast
  have c: "change_directory (\<lambda>s. None) scenario_heap 1 ''2'' = (1, [IndexOutOfRange])"
    using t1 i2 c1 by simp
  have d: "change_directory (\<lambda>s. None) scenario_heap 1 ''-1'' = (1, [IndexOutOfRange])"
    using t1 i1 c1 by simp
  have nz: "''zz'' \<noteq> ''..''" by simp
  have e: "change_directory (\<lambda>s. None) scenario_heap 1 ''zz'' = (1, [NoMatchingClass])"
    by (rule t1[THEN conjunct2, THEN conjunct2, THEN conjunct2, rule_format, of "''zz''"])
       (intro conjI nz iz nm)
  show ?thesis using a b c d e i2 i1 iz by simp
qed

text \<open>
  Claim C7. For a text argument (not \<open>..\<close>, which is the command to go up, and one on
  which \<open>int\<close> raises \<open>ValueError\<close>), if some child's classes joined by a space
  contain the text, the cursor moves to the first such child in the order of
  \<open>children\<close>, and nothing is printed: no child before it matches. This holds whatever
  \<open>int\<close> does on the strings where \<open>int_rest\<close> stands for it.
\<close>

theorem change_directory_first_match:
  assumes "arg \<noteq> ''..''" and "py_int int_rest arg = None"
    and "\<exists>c \<in> set (children (h ! cur)). py_in arg (join '' '' (classes (h ! c)))"
  shows "\<exists>pre c post. children (h ! cur) = pre @ c # post \<and>
           py_in arg (join '' '' (classes (h ! c))) \<and>
           (\<forall>x \<in> set pre. \<not> py_in arg (join '' '' (classes (h ! x)))) \<and>
           change_directory int_rest h cur arg = (c, [])"
proof -
  let ?P = "\<lambda>child. py_in arg (join '' '' (classes (h ! child)))"
  obtain pre c post where s: "children (h ! cur) = pre @ c # post" "?P c" "\<forall>x \<in> set pre. \<not> ?P x"
    using split_list_first_prop[OF assms(3)] by blast
  have f: "filter ?P (children (h ! cur)) \<noteq> [] \<and> filter ?P (children (h ! cur)) ! 0 = c"
    by (rule filter_first[OF s])
  have "change_directory int_rest h cur arg = (c, [])"
    using assms(1,2) f by (simp add: change_directory_def Let_def)
  then show ?thesis using s by blast
qed

theorem change_directory_first_match_witness:
  "''item'' \<noteq> ''..'' \<and> py_int (\<lambda>s. None) ''item'' = None \<and>
   children (menu_heap ! 0) = [1, 2, 3] \<and>
   \<not> py_in ''item'' (join '' '' (classes (menu_heap ! 1))) \<and>
   py_in ''item'' (join '' '' (classes (menu_heap ! 2))) \<and>
   py_in ''item'' (join '' '' (classes (menu_heap ! 3))) \<and>
   change_directory (\<lambda>s. None) menu_heap 0 ''item'' = (2, [])"
proof -
  have ne: "''item'' \<noteq> ''..''" by simp
  have pi: "py_int (\<lambda>s. None) ''item'' = None"
    by (simp add: py_int_def ascii_int_def int_strip_def int_space_def is_digit_def is_ascii_def)
  have ch: "children (menu_heap ! 0) = [1, 2, 3]" by (simp add: menu_heap_def)
  have m1: "\<not> py_in ''item'' (join '' '' (classes (menu_heap ! 1)))"
    and m2: "py_in ''item'' (join '' '' (classes (menu_heap ! 2)))"
    and m3: "py_in ''item'' (join '' '' (classes (menu_heap ! 3)))"
    by (simp_all add: menu_heap_def)
  have ex: "\<exists>c \<in> set (children (menu_heap ! 0)).
              py_in ''item'' (join '' '' (classes (menu_heap ! c)))"
    using ch m2 by simp
  from change_directory_first_match[where int_rest="\<lambda>s. None", OF ne pi ex]
  obtain pre c post where s: "children (menu_heap ! 0) = pre @ c # post"
    "py_in ''item'' (join '' '' (classes (menu_heap ! c)))"
    "\<forall>x \<in> set pre. \<not> py_in ''item'' (join '' '' (classes (menu_heap ! x)))"
    "change_directory (\<lambda>s. None) menu_heap 0 ''item'' = (c, [])"
    by blast
  have "c = 2"
  proof -
    have "pre @ c # post = [1, 2, 3]" using s(1) ch by simp
    then consider "pre = [] \<and> c = 1" | "pre = [1] \<and> c = 2" | "pre = [1, 2] \<and> c = 3"
      by (auto simp: append_eq_Cons_conv)
    then show ?thesis
    proof cases
      case 1 then show ?thesis using s(2) m1 by simp
    next
      case 2 then show ?thesis by simp
    next
      case 3 then show ?thesis using s(3) m2 by simp
    qed
  qed
  then show ?thesis using ne pi ch m1 m2 m3 s(4) by simp
qed

text \<open>
  Claim C10. The empty text is contained in every joined class string and \<open>int\<close>
  refuses it, so at a node with a child, \<open>change_directory\<close> with the empty string
  moves to the first child and prints no failure.
\<close>

theorem change_directory_empty_text:
  assumes "children (h ! cur) \<noteq> []"
  shows "(\<forall>c. py_in '''' (join '' '' (classes (h ! c)))) \<and>
         change_directory int_rest h cur '''' = (children (h ! cur) ! 0, [])"
proof -
  have "filter (\<lambda>child. py_in [] (join '' '' (classes (h ! child)))) (children (h ! cur))
          = children (h ! cur)"
    by (simp add: py_in_empty)
  then show ?thesis using assms py_int_empty by (simp add: change_directory_def py_in_empty)
qed

theorem change_directory_empty_text_witness:
  "children (scenario_heap ! 1) \<noteq> [] \<and> change_directory (\<lambda>s. None) scenario_heap 1 '''' = (2, [])"
proof -
  have n: "children (scenario_heap ! 1) \<noteq> []" by (simp add: scenario_heap_def)
  have "children (scenario_heap ! 1) ! 0 = 2" by (simp add: scenario_heap_def)
  then show ?thesis using n change_directory_empty_text[where int_rest="\<lambda>s. None", OF n] by simp
qed

section \<open>Traversals of a subtree\<close>

lemma nodes_pos: "0 < nodes t"
  by (cases t) simp

lemma nodes_kid: "k \<in> set ks \<Longrightarrow> nodes k \<le> sum_list (map nodes ks)"
  by (induction ks) auto

lemma tree_at_cases:
  assumes "tree_at h a t"
  obtains ks where "t = NTree a (tag (h ! a)) (classes (h ! a)) ks"
    and "a < length h" and "list_all2 (tree_at h) (children (h ! a)) ks"
  using assms by (cases t) auto

lemma map_eq_list_all2:
  assumes "list_all2 P xs ys" and "\<And>x y. P x y \<Longrightarrow> y \<in> set ys \<Longrightarrow> f x = g y"
  shows "map f xs = map g ys"
  using assms by (induction rule: list_all2_induct) auto

lemma those_map_Some: "those (map (\<lambda>k. Some (g k)) ks) = Some (map g ks)"
  by (induction ks) simp_all

lemma remove_parent_tree_at:
  "tree_at h a t \<Longrightarrow> nodes t \<le> fuel \<Longrightarrow> remove_parent fuel h a = Some (json_of (shape_of t))"
proof (induction fuel arbitrary: a t)
  case 0
  then show ?case using nodes_pos[of t] by simp
next
  case (Suc fuel)
  from Suc.prems(1) obtain ks where t: "t = NTree a (tag (h ! a)) (classes (h ! a)) ks"
    and ks: "list_all2 (tree_at h) (children (h ! a)) ks"
    by (rule tree_at_cases)
  have small: "nodes k \<le> fuel" if "k \<in> set ks" for k
    using nodes_kid[OF that] Suc.prems(2) t by simp
  have "map (remove_parent fuel h) (children (h ! a)) = map (\<lambda>k. Some (json_of (shape_of k))) ks"
    by (rule map_eq_list_all2[OF ks]) (simp add: Suc.IH small)
  then have "those (map (remove_parent fuel h) (children (h ! a))) = Some (map (\<lambda>k. json_of (shape_of k)) ks)"
    by (simp add: those_map_Some)
  then show ?case by (simp add: t comp_def)
qed

lemma foldl_option_chain:
  assumes "list_all2 P cs ks"
    and "\<And>c k rs. P c k \<Longrightarrow> k \<in> set ks \<Longrightarrow> f c rs = Some (rs @ g k)"
  shows "foldl (\<lambda>acc child. case acc of None \<Rightarrow> None | Some rs \<Rightarrow> f child rs) (Some rs) cs
           = Some (rs @ concat (map g ks))"
  using assms
proof (induction arbitrary: rs rule: list_all2_induct)
  case Nil
  then show ?case by simp
next
  case (Cons c cs k ks)
  have "f c rs = Some (rs @ g k)" using Cons.prems Cons.hyps(1) by simp
  moreover have "foldl (\<lambda>acc child. case acc of None \<Rightarrow> None | Some rs \<Rightarrow> f child rs) (Some (rs @ g k)) cs
           = Some ((rs @ g k) @ concat (map g ks))"
    by (rule Cons.IH) (simp add: Cons.prems)
  ultimately show ?case by simp
qed

lemma search_tree_tree_at:
  "tree_at h a t \<Longrightarrow> nodes t \<le> fuel \<Longrightarrow>
     search_tree lower_rest fuel h q a rs
       = Some (rs @ filter (matches lower_rest h q) (map addr (preorder t)))"
proof (induction fuel arbitrary: a t rs)
  case 0
  then show ?case using nodes_pos[of t] by simp
next
  case (Suc fuel)
  from Suc.prems(1) obtain ks where t: "t = NTree a (tag (h ! a)) (classes (h ! a)) ks"
    and ks: "list_all2 (tree_at h) (children (h ! a)) ks"
    by (rule tree_at_cases)
  have small: "nodes k \<le> fuel" if "k \<in> set ks" for k
    using nodes_kid[OF that] Suc.prems(2) t by simp
  let ?g = "\<lambda>k. filter (matches lower_rest h q) (map addr (preorder k))"
  have fold: "foldl (\<lambda>acc child. case acc of None \<Rightarrow> None
                                   | Some rs \<Rightarrow> search_tree lower_rest fuel h q child rs)
            (Some rs1) (children (h ! a)) = Some (rs1 @ concat (map ?g ks))" for rs1
    by (rule foldl_option_chain[OF ks]) (simp add: Suc.IH small)
  have pre: "filter (matches lower_rest h q) (map addr (preorder t))
               = (if matches lower_rest h q a then [a] else []) @ concat (map ?g ks)"
    by (simp add: t map_concat filter_concat comp_def)
  show ?case
    by (simp add: Let_def fold pre matches_def[symmetric])
qed

lemma join_append:
  "xs \<noteq> [] \<Longrightarrow> ys \<noteq> [] \<Longrightarrow> join s (xs @ ys) = join s xs @ s @ join s ys"
proof (induction s xs rule: join.induct)
  case (1 sep)
  then show ?case by simp
next
  case (2 sep x)
  then show ?case by (cases ys) simp_all
next
  case (3 sep x y ys')
  then show ?case by simp
qed

lemma render_lines_ne: "render_lines t p l \<noteq> []"
  by (cases t) simp

lemma foldl_render:
  assumes "list_all2 (tree_at h) cs ks" and "n + length cs = N"
    and "\<And>c k l. tree_at h c k \<Longrightarrow> k \<in> set ks \<Longrightarrow>
           tree_to_string fuel h c p l = Some (join [newline] (render_lines k p l))"
    and "acc \<noteq> []"
  shows "foldl (\<lambda>acc (i, child).
                  case acc of
                    None \<Rightarrow> None
                  | Some str \<Rightarrow>
                      (case tree_to_string fuel h child p (int i = int N - 1) of
                         None \<Rightarrow> None
                       | Some sub \<Rightarrow> Some (str @ [newline] @ sub)))
               (Some (join [newline] acc)) (enumerate n cs)
         = Some (join [newline] (acc @ render_kids ks p))"
  using assms
proof (induction arbitrary: n acc rule: list_all2_induct)
  case Nil
  then show ?case by simp
next
  case (Cons c cs k ks)
  have len: "length cs = length ks" using Cons.hyps(2) by (rule list_all2_lengthD)
  have flag: "(int n = int N - 1) = (ks = [])"
    using Cons.prems(1) len by auto
  have sub: "tree_to_string fuel h c p (ks = []) = Some (join [newline] (render_lines k p (ks = [])))"
    using Cons.prems(2)[OF Cons.hyps(1)] by simp
  have j: "join [newline] acc @ [newline] @ join [newline] (render_lines k p (ks = []))
            = join [newline] (acc @ render_lines k p (ks = []))"
    using join_append[OF Cons.prems(3) render_lines_ne] by simp
  have ih: "foldl (\<lambda>acc (i, child).
                  case acc of
                    None \<Rightarrow> None
                  | Some str \<Rightarrow>
                      (case tree_to_string fuel h child p (int i = int N - 1) of
                         None \<Rightarrow> None
                       | Some sub \<Rightarrow> Some (str @ [newline] @ sub)))
               (Some (join [newline] (acc @ render_lines k p (ks = [])))) (enumerate (Suc n) cs)
         = Some (join [newline] ((acc @ render_lines k p (ks = [])) @ render_kids ks p))"
  proof (rule Cons.IH)
    show "Suc n + length cs = N" using Cons.prems(1) by simp
    show "acc @ render_lines k p (ks = []) \<noteq> []" using Cons.prems(3) by simp
    show "\<And>c k' l. tree_at h c k' \<Longrightarrow> k' \<in> set ks \<Longrightarrow>
           tree_to_string fuel h c p l = Some (join [newline] (render_lines k' p l))"
      using Cons.prems(2) by simp
  qed
  show ?case
    by (simp add: flag sub j[simplified] ih[simplified])
qed

lemma tree_to_string_tree_at:
  "tree_at h a t \<Longrightarrow> nodes t \<le> fuel \<Longrightarrow>
     tree_to_string fuel h a pfx is_last = Some (join [newline] (render_lines t pfx is_last))"
proof (induction fuel arbitrary: a t pfx is_last)
  case 0
  then show ?case using nodes_pos[of t] by simp
next
  case (Suc fuel)
  from Suc.prems(1) obtain ks where t: "t = NTree a (tag (h ! a)) (classes (h ! a)) ks"
    and ks: "list_all2 (tree_at h) (children (h ! a)) ks"
    by (rule tree_at_cases)
  have small: "nodes k \<le> fuel" if "k \<in> set ks" for k
    using nodes_kid[OF that] Suc.prems(2) t by simp
  let ?line = "pfx @ (if is_last then glyph_last else glyph_mid) @
                 node_label (tag (h ! a)) (classes (h ! a))"
  let ?p = "pfx @ (if is_last then ''    '' else indent_mid)"
  have fold: "foldl (\<lambda>acc (i, child).
                  case acc of
                    None \<Rightarrow> None
                  | Some str \<Rightarrow>
                      (case tree_to_string fuel h child ?p
                              (int i = int (length (children (h ! a))) - 1) of
                         None \<Rightarrow> None
                       | Some sub \<Rightarrow> Some (str @ [newline] @ sub)))
               (Some (join [newline] [?line])) (enumerate 0 (children (h ! a)))
         = Some (join [newline] ([?line] @ render_kids ks ?p))"
    by (rule foldl_render[OF ks]) (simp_all add: Suc.IH small)
  have r: "render_lines t pfx is_last = ?line # render_kids ks ?p"
    by (simp add: t)
  show ?case
    unfolding r using fold by (simp add: Let_def node_label_def)
qed

subsection \<open>Lines of the rendering\<close>

lemma split_lines_ne: "split_lines s \<noteq> []"
  by (induction s) simp_all

lemma split_lines_one: "newline \<notin> set l \<Longrightarrow> split_lines l = [l]"
  by (induction l) auto

lemma split_lines_append:
  "newline \<notin> set l \<Longrightarrow> split_lines (l @ newline # rest) = l # split_lines rest"
  by (induction l) auto

lemma split_lines_join:
  "ls \<noteq> [] \<Longrightarrow> \<forall>l \<in> set ls. newline \<notin> set l \<Longrightarrow> split_lines (join [newline] ls) = ls"
proof (induction "[newline]" ls rule: join.induct)
  case 1
  then show ?case by simp
next
  case (2 x)
  then show ?case by (simp add: split_lines_one)
next
  case (3 x y ys)
  then show ?case by (simp add: split_lines_append)
qed

lemma glyphs_one_line:
  "newline \<notin> set glyph_last" "newline \<notin> set glyph_mid" "newline \<notin> set indent_mid"
  by (simp_all add: glyph_last_def glyph_mid_def indent_mid_def newline_def)

lemma join_space_one_line:
  "list_all (\<lambda>c. newline \<notin> set c) cl \<Longrightarrow> newline \<notin> set (join '' '' cl)"
  by (induction "'' ''" cl rule: join.induct) (simp_all add: newline_def)

lemma node_label_one_line:
  "newline \<notin> set tg \<Longrightarrow> list_all (\<lambda>c. newline \<notin> set c) cl \<Longrightarrow> newline \<notin> set (node_label tg cl)"
  using join_space_one_line[of cl] by (simp add: node_label_def newline_def)

lemma render_one_line:
  "one_line t \<Longrightarrow> newline \<notin> set pfx \<Longrightarrow> \<forall>l \<in> set (render_lines t pfx b). newline \<notin> set l"
  "list_all one_line ks \<Longrightarrow> newline \<notin> set pfx \<Longrightarrow> \<forall>l \<in> set (render_kids ks pfx). newline \<notin> set l"
proof (induction t pfx b and ks pfx rule: render_lines_render_kids.induct)
  case (1 a tg cl ks pfx is_last)
  have p: "newline \<notin> set (pfx @ (if is_last then ''    '' else indent_mid))"
    using 1(3) glyphs_one_line by (simp add: newline_def)
  have l: "newline \<notin> set (pfx @ (if is_last then glyph_last else glyph_mid) @ node_label tg cl)"
    using 1(2,3) glyphs_one_line node_label_one_line[of tg cl] by simp
  have "\<forall>l \<in> set (render_kids ks (pfx @ (if is_last then ''    '' else indent_mid))). newline \<notin> set l"
    using 1(1)[OF _ p] 1(2) by simp
  then show ?case using l by simp
next
  case (2 pfx)
  then show ?case by simp
next
  case (3 k ks pfx)
  then show ?case by auto
qed

lemma render_length:
  "length (render_lines t pfx b) = nodes t"
  "length (render_kids ks pfx) = sum_list (map nodes ks)"
  by (induction t pfx b and ks pfx rule: render_lines_render_kids.induct) simp_all

lemma render_preorder:
  "list_all2 (\<lambda>line k. suffix (node_label (ntag k) (nclasses k)) line)
     (render_lines t pfx b) (preorder t)"
  "list_all2 (\<lambda>line k. suffix (node_label (ntag k) (nclasses k)) line)
     (render_kids ks pfx) (concat (map preorder ks))"
proof (induction t pfx b and ks pfx rule: render_lines_render_kids.induct)
  case (1 a tg cl ks pfx is_last)
  have "suffix (node_label tg cl) (pfx @ (if is_last then glyph_last else glyph_mid) @ node_label tg cl)"
    by (metis append.assoc suffixI)
  then show ?case using 1 by simp
next
  case (2 pfx)
  then show ?case by simp
next
  case (3 k ks pfx)
  then show ?case by (simp add: list_all2_appendI)
qed

text \<open>
  Claim C9. The rendering of the subtree at a reference is made of exactly one line for
  each node of the subtree, the node itself included, in pre-order: the text is these
  lines joined by line breaks, there are as many as the subtree has nodes, and the line
  of a node ends with its tag and classes. Where no tag, class or prefix holds a line
  break (tags and classes of parsed markup never do), splitting the text at its line
  breaks gives these lines back. The bound on the depth is enough as soon as it is not
  below the number of nodes.
\<close>

theorem tree_to_string_one_line_per_node:
  assumes "tree_at h a t" and "nodes t \<le> fuel"
  shows "\<exists>ls. tree_to_string fuel h a pfx is_last = Some (join [newline] ls) \<and>
           length ls = nodes t \<and>
           list_all2 (\<lambda>line k. suffix (node_label (ntag k) (nclasses k)) line) ls (preorder t) \<and>
           (one_line t \<and> newline \<notin> set pfx \<longrightarrow> split_lines (join [newline] ls) = ls)"
proof -
  let ?ls = "render_lines t pfx is_last"
  have "tree_to_string fuel h a pfx is_last = Some (join [newline] ?ls)"
    by (rule tree_to_string_tree_at[OF assms])
  moreover have "length ?ls = nodes t" by (rule render_length)
  moreover have "list_all2 (\<lambda>line k. suffix (node_label (ntag k) (nclasses k)) line) ?ls (preorder t)"
    by (rule render_preorder)
  moreover have "one_line t \<and> newline \<notin> set pfx \<longrightarrow> split_lines (join [newline] ?ls) = ?ls"
    using split_lines_join[OF render_lines_ne] render_one_line(1) by blast
  ultimately show ?thesis by blast
qed

theorem tree_to_string_one_line_per_node_witness:
  "tree_at scenario_heap 1 (NTree 1 ''div'' [''a''] [NTree 2 ''p'' [] [], NTree 3 ''span'' [''b''] []]) \<and>
   nodes (NTree 1 ''div'' [''a''] [NTree 2 ''p'' [] [], NTree 3 ''span'' [''b''] []]) \<le> 3 \<and>
   one_line (NTree 1 ''div'' [''a''] [NTree 2 ''p'' [] [], NTree 3 ''span'' [''b''] []]) \<and>
   newline \<notin> set [] \<and>
   (\<exists>s. tree_to_string 3 scenario_heap 1 [] True = Some s \<and> length (split_lines s) = 3)"
proof -
  have t: "tree_at scenario_heap 1 (NTree 1 ''div'' [''a''] [NTree 2 ''p'' [] [], NTree 3 ''span'' [''b''] []])"
    by (simp add: scenario_heap_def)
  have n: "nodes (NTree 1 ''div'' [''a''] [NTree 2 ''p'' [] [], NTree 3 ''span'' [''b''] []]) \<le> 3"
    by simp
  have o: "one_line (NTree 1 ''div'' [''a''] [NTree 2 ''p'' [] [], NTree 3 ''span'' [''b''] []])"
    by (simp add: newline_def)
  have p: "newline \<notin> set []" by simp
  from tree_to_string_one_line_per_node[OF t n, of "[]" True]
  obtain ls where ls: "tree_to_string 3 scenario_heap 1 [] True = Some (join [newline] ls)"
    "length ls = nodes (NTree 1 ''div'' [''a''] [NTree 2 ''p'' [] [], NTree 3 ''span'' [''b''] []])"
    "one_line (NTree 1 ''div'' [''a''] [NTree 2 ''p'' [] [], NTree 3 ''span'' [''b''] []]) \<and> newline \<notin> set []
       \<longrightarrow> split_lines (join [newline] ls) = ls"
    by blast
  have "length (split_lines (join [newline] ls)) = 3" using ls(2,3) o by simp
  then show ?thesis using t n o p ls(1) by blast
qed

subsection \<open>Reachability\<close>

lemma list_all2_right:
  "list_all2 P xs ys \<Longrightarrow> y \<in> set ys \<Longrightarrow> \<exists>x \<in> set xs. P x y"
  by (induction rule: list_all2_induct) auto

lemma preorder_sub:
  "k \<in> set (preorder t) \<Longrightarrow> x \<in> set (preorder k) \<Longrightarrow> x \<in> set (preorder t)"
proof (induction t arbitrary: k x)
  case (NTree a tg cl ks)
  show ?case
  proof (cases "k = NTree a tg cl ks")
    case True
    then show ?thesis using NTree.prems(2) by simp
  next
    case False
    then obtain k' where k': "k' \<in> set ks" "k \<in> set (preorder k')"
      using NTree.prems(1) by auto
    have "x \<in> set (preorder k')" by (rule NTree.IH[OF k' NTree.prems(2)])
    then show ?thesis using k'(1) by auto
  qed
qed

lemma preorder_self: "t \<in> set (preorder t)"
  by (cases t) simp

lemma tree_at_preorder:
  "tree_at h a t \<Longrightarrow> k \<in> set (preorder t) \<Longrightarrow> tree_at h (addr k) k"
proof (induction t arbitrary: a k)
  case (NTree b tg cl ks)
  show ?case
  proof (cases "k = NTree b tg cl ks")
    case True
    then show ?thesis using NTree.prems(1) by auto
  next
    case False
    then obtain k' where k': "k' \<in> set ks" "k \<in> set (preorder k')"
      using NTree.prems(2) by auto
    have l2: "list_all2 (tree_at h) (children (h ! a)) ks" using NTree.prems(1) by auto
    obtain c where c: "tree_at h c k'"
      using list_all2_right[OF l2 k'(1)] by blast
    show ?thesis by (rule NTree.IH[OF k'(1) c k'(2)])
  qed
qed

lemma tree_at_addr: "tree_at h a t \<Longrightarrow> addr t = a"
  by (cases t) simp

lemma tree_at_kids:
  assumes "tree_at h a t"
  shows "children (h ! a) = map addr (kids t)"
proof -
  from assms obtain ks where t: "t = NTree a (tag (h ! a)) (classes (h ! a)) ks"
    and ks: "list_all2 (tree_at h) (children (h ! a)) ks"
    by (rule tree_at_cases)
  have "map (\<lambda>c. c) (children (h ! a)) = map addr ks"
    by (rule map_eq_list_all2[OF ks]) (simp add: tree_at_addr)
  then show ?thesis using t by simp
qed

lemma kids_preorder: "k \<in> set (kids t) \<Longrightarrow> k \<in> set (preorder t)"
  by (cases t) (auto intro: preorder_self)

lemma reach_trans: "x \<in> reach h c \<Longrightarrow> c \<in> reach h a \<Longrightarrow> x \<in> reach h a"
  by (induction rule: reach.induct) (auto intro: reach.child)

lemma tree_at_reach:
  assumes "tree_at h a t"
  shows "set (map addr (preorder t)) = reach h a"
proof
  show "set (map addr (preorder t)) \<subseteq> reach h a"
    using assms
  proof (induction t arbitrary: a)
    case (NTree b tg cl ks)
    have ab: "a = b" using NTree.prems by simp
    have l2: "list_all2 (tree_at h) (children (h ! a)) ks" using NTree.prems by auto
    have "addr x \<in> reach h a" if kk: "k \<in> set ks" and xx: "x \<in> set (preorder k)" for k x
    proof -
      obtain c where c: "c \<in> set (children (h ! a))" "tree_at h c k"
        using list_all2_right[OF l2 kk] by blast
      have "set (map addr (preorder k)) \<subseteq> reach h c"
        by (rule NTree.IH[OF kk c(2)])
      then have "addr x \<in> reach h c" using xx by auto
      moreover have "c \<in> reach h a"
        by (rule reach.child[OF reach.root c(1)])
      ultimately show ?thesis by (rule reach_trans)
    qed
    then show ?case using ab reach.root[of a h] by auto
  qed
next
  show "reach h a \<subseteq> set (map addr (preorder t))"
  proof
    fix x assume "x \<in> reach h a"
    then show "x \<in> set (map addr (preorder t))"
    proof (induction rule: reach.induct)
      case root
      have "addr t \<in> addr ` set (preorder t)" using preorder_self[of t] by (rule imageI)
      then show ?case using tree_at_addr[OF assms] by simp
    next
      case (child x c)
      then obtain k where k: "k \<in> set (preorder t)" "addr k = x" by auto
      have tk: "tree_at h x k" using tree_at_preorder[OF assms k(1)] k(2) by simp
      have "c \<in> set (map addr (kids k))" using tree_at_kids[OF tk] child.hyps(2) by simp
      then obtain k' where k': "k' \<in> set (kids k)" "addr k' = c" by auto
      have "k' \<in> set (preorder t)"
        using preorder_sub[OF k(1) kids_preorder[OF k'(1)]] .
      then have "addr k' \<in> addr ` set (preorder t)" by (rule imageI)
      then show ?case using k'(2) by simp
    qed
  qed
qed

subsection \<open>Export and search\<close>

lemma no_parent_key: "\<not> has_key ''parent'' (json_of s)"
proof (induction s)
  case (Shape tg cl ks)
  have a: "\<not> list_ex (has_key ''parent'') (map JString cl)"
    by (induction cl) simp_all
  have b: "\<not> list_ex (has_key ''parent'') (map json_of ks)"
    using Shape.IH by (induction ks) simp_all
  show ?case using a b by simp
qed

text \<open>
  Claim C3. The export of a node has no field named \<open>parent\<close> at any depth, and it
  depends on the shape and content of the subtree only: two subtrees with the same tags,
  classes and children, at any references and in any stores, are written as the same
  text.
\<close>

theorem export_json_pure:
  assumes "tree_at h1 a1 t1" and "nodes t1 \<le> fuel1"
    and "tree_at h2 a2 t2" and "nodes t2 \<le> fuel2"
    and "shape_of t1 = shape_of t2"
  shows "\<exists>j. remove_parent fuel1 h1 a1 = Some j \<and> \<not> has_key ''parent'' j \<and>
           export_json enc fuel1 h1 (Some a1) = Some (Inr (json_dumps enc 0 j)) \<and>
           export_json enc fuel2 h2 (Some a2) = Some (Inr (json_dumps enc 0 j))"
proof -
  have r1: "remove_parent fuel1 h1 a1 = Some (json_of (shape_of t1))"
    by (rule remove_parent_tree_at[OF assms(1,2)])
  have r2: "remove_parent fuel2 h2 a2 = Some (json_of (shape_of t1))"
    using remove_parent_tree_at[OF assms(3,4)] assms(5) by simp
  show ?thesis
    using r1 r2 no_parent_key[of "shape_of t1"] by (simp add: export_json_def)
qed

theorem export_json_pure_witness:
  "tree_at twins_heap 1 (NTree 1 ''li'' [''item''] [NTree 2 ''a'' [] []]) \<and>
   nodes (NTree 1 ''li'' [''item''] [NTree 2 ''a'' [] []]) \<le> 2 \<and>
   tree_at twins_heap 3 (NTree 3 ''li'' [''item''] [NTree 4 ''a'' [] []]) \<and>
   nodes (NTree 3 ''li'' [''item''] [NTree 4 ''a'' [] []]) \<le> 2 \<and>
   shape_of (NTree 1 ''li'' [''item''] [NTree 2 ''a'' [] []]) =
     shape_of (NTree 3 ''li'' [''item''] [NTree 4 ''a'' [] []]) \<and>
   (\<exists>s. export_json (\<lambda>s. CHR 0x22 # s @ [CHR 0x22]) 2 twins_heap (Some 1) = Some (Inr s) \<and>
        export_json (\<lambda>s. CHR 0x22 # s @ [CHR 0x22]) 2 twins_heap (Some 3) = Some (Inr s))"
proof -
  have t1: "tree_at twins_heap 1 (NTree 1 ''li'' [''item''] [NTree 2 ''a'' [] []])"
    and t2: "tree_at twins_heap 3 (NTree 3 ''li'' [''item''] [NTree 4 ''a'' [] []])"
    by (simp_all add: twins_heap_def)
  have n1: "nodes (NTree 1 ''li'' [''item''] [NTree 2 ''a'' [] []]) \<le> 2"
    and n2: "nodes (NTree 3 ''li'' [''item''] [NTree 4 ''a'' [] []]) \<le> 2"
    by simp_all
  have sh: "shape_of (NTree 1 ''li'' [''item''] [NTree 2 ''a'' [] []]) =
     shape_of (NTree 3 ''li'' [''item''] [NTree 4 ''a'' [] []])"
    by simp
  show ?thesis
    using t1 t2 n1 n2 sh
      export_json_pure[OF t1 n1 t2 n2 sh, of "\<lambda>s. CHR 0x22 # s @ [CHR 0x22]"]
    by blast
qed

lemma py_lower_empty: "py_lower lower_rest [] = []"
  by (simp add: py_lower_def)

lemma preorder_ne: "preorder t \<noteq> []"
  by (cases t) simp

text \<open>
  Claim C8 says that \<open>search\<close> returns the nodes it finds. The method has no
  \<open>return\<close>: at the \<open>div\<close> of the scenario, with the query \<open>span\<close>, it prints the
  identifier of the \<open>span\<close> and returns \<open>None\<close>, not the list of that node.
\<close>

theorem search_returns_none_counterexample:
  "tree_at scenario_heap 1
     (NTree 1 ''div'' [''a''] [NTree 2 ''p'' [] [], NTree 3 ''span'' [''b''] []]) \<and>
   py_in (py_lower (\<lambda>s. s) ''span'')
     (py_lower (\<lambda>s. s) (format_node_identifier (scenario_heap ! 3))) \<and>
   search (\<lambda>s. s) 3 scenario_heap 1 ''span'' = Some (PyNone, [SearchResults [''span (b)'']]) \<and>
   PyNone \<noteq> PyNodes [3]"
  by code_simp

text \<open>
  Claim C8, amended. \<open>search\<close> returns nothing; it prints, in pre-order, the
  identifiers of exactly the nodes of the subtree at the current node whose identifier,
  lowered, contains the lowered query, or that nothing matches when there is none. With
  the empty query it prints the identifier of every node of the subtree. The nodes of the
  subtree are the nodes reachable from the current node. This holds whatever
  \<open>str.lower\<close> does on the strings where \<open>lower_rest\<close> stands for it.
\<close>

theorem search_prints_preorder:
  assumes "tree_at h cur t" and "nodes t \<le> fuel"
  shows "search lower_rest fuel h cur query =
           Some (PyNone,
                 (let found = filter (\<lambda>a. py_in (py_lower lower_rest query)
                                              (py_lower lower_rest (format_node_identifier (h ! a))))
                                (map addr (preorder t))
                  in if found \<noteq> []
                     then [SearchResults (map (\<lambda>a. format_node_identifier (h ! a)) found)]
                     else [NoMatchesFound])) \<and>
         search lower_rest fuel h cur '''' =
           Some (PyNone,
                 [SearchResults (map (\<lambda>a. format_node_identifier (h ! a)) (map addr (preorder t)))]) \<and>
         set (map addr (preorder t)) = reach h cur"
proof -
  have s: "search_tree lower_rest fuel h q cur []
             = Some (filter (matches lower_rest h q) (map addr (preorder t)))" for q
    using search_tree_tree_at[OF assms, of lower_rest q "[]"] by simp
  have e: "filter (matches lower_rest h []) xs = xs" for xs
    by (simp add: matches_def py_in_empty)
  have m: "matches lower_rest h q = (\<lambda>a. py_in q (py_lower lower_rest (format_node_identifier (h ! a))))" for q
    by (rule ext) (simp add: matches_def)
  have one: "search lower_rest fuel h cur query =
           Some (PyNone,
                 (let found = filter (\<lambda>a. py_in (py_lower lower_rest query)
                                              (py_lower lower_rest (format_node_identifier (h ! a))))
                                (map addr (preorder t))
                  in if found \<noteq> []
                     then [SearchResults (map (\<lambda>a. format_node_identifier (h ! a)) found)]
                     else [NoMatchesFound]))"
    by (simp add: search_def s m Let_def)
  have two: "search lower_rest fuel h cur '''' =
           Some (PyNone,
                 [SearchResults (map (\<lambda>a. format_node_identifier (h ! a)) (map addr (preorder t)))])"
    by (simp add: search_def s e py_lower_empty preorder_ne)
  show ?thesis using one two tree_at_reach[OF assms(1)] by blast
qed

theorem search_prints_preorder_witness:
  "tree_at scenario_heap 1
     (NTree 1 ''div'' [''a''] [NTree 2 ''p'' [] [], NTree 3 ''span'' [''b''] []]) \<and>
   nodes (NTree 1 ''div'' [''a''] [NTree 2 ''p'' [] [], NTree 3 ''span'' [''b''] []]) \<le> 3 \<and>
   search (\<lambda>s. s) 3 scenario_heap 1 ''(A'' = Some (PyNone, [SearchResults [''div (a)'']]) \<and>
   search (\<lambda>s. s) 3 scenario_heap 1 ''zz'' = Some (PyNone, [NoMatchesFound]) \<and>
   search (\<lambda>s. s) 3 scenario_heap 1 '''' =
     Some (PyNone, [SearchResults [''div (a)'', ''p'', ''span (b)'']])"
proof -
  let ?t = "NTree 1 ''div'' [''a''] [NTree 2 ''p'' [] [], NTree 3 ''span'' [''b''] []]"
  have t: "tree_at scenario_heap 1 ?t"
    by (simp add: scenario_heap_def)
  have n: "nodes ?t \<le> 3"
    by simp
  note thA = search_prints_preorder[OF t n, where lower_rest="\<lambda>s. s" and query="''(A''"]
  note thZ = search_prints_preorder[OF t n, where lower_rest="\<lambda>s. s" and query="''zz''"]
  have fA: "(let found = filter (\<lambda>a. py_in (py_lower (\<lambda>s. s) ''(A'')
                                              (py_lower (\<lambda>s. s) (format_node_identifier (scenario_heap ! a))))
                                (map addr (preorder ?t))
                  in if found \<noteq> []
                     then [SearchResults (map (\<lambda>a. format_node_identifier (scenario_heap ! a)) found)]
                     else [NoMatchesFound]) = [SearchResults [''div (a)'']]"
    by code_simp
  have fZ: "(let found = filter (\<lambda>a. py_in (py_lower (\<lambda>s. s) ''zz'')
                                              (py_lower (\<lambda>s. s) (format_node_identifier (scenario_heap ! a))))
                                (map addr (preorder ?t))
                  in if found \<noteq> []
                     then [SearchResults (map (\<lambda>a. format_node_identifier (scenario_heap ! a)) found)]
                     else [NoMatchesFound]) = [NoMatchesFound]"
    by code_simp
  have g: "map (\<lambda>a. format_node_identifier (scenario_heap ! a)) (map addr (preorder ?t))
             = [''div (a)'', ''p'', ''span (b)'']"
    by code_simp
  have a: "search (\<lambda>s. s) 3 scenario_heap 1 ''(A'' = Some (PyNone, [SearchResults [''div (a)'']])"
    using thA[THEN conjunct1] unfolding fA .
  have b: "search (\<lambda>s. s) 3 scenario_heap 1 ''zz'' = Some (PyNone, [NoMatchesFound])"
    using thZ[THEN conjunct1] unfolding fZ .
  have c: "search (\<lambda>s. s) 3 scenario_heap 1 '''' =
     Some (PyNone, [SearchResults [''div (a)'', ''p'', ''span (b)'']])"
    using thA[THEN conjunct2, THEN conjunct1] unfolding g .
  show ?thesis by (intro conjI t n a b c)
qed

section \<open>Every built tree is a finite subtree of the store\<close>

text \<open>
  The traversals above are stated for a reference below which the store unfolds to a
  finite tree. Every store left by the builder is of this kind, at the root and at every
  node reachable from it: a call of \<open>_build_tree\<close> leaves the nodes that existed before
  it as they were, and the nodes it creates form the subtree of its result.
\<close>

lemma build_unchanged:
  "build_tree e par h = (r, h') \<Longrightarrow> \<forall>i<length h. h' ! i = h ! i"
  "a < length h \<Longrightarrow> build_children cs a h = h'' \<Longrightarrow>
     (\<forall>i<length h. i \<noteq> a \<longrightarrow> h'' ! i = h ! i) \<and>
     tag (h'' ! a) = tag (h ! a) \<and> classes (h'' ! a) = classes (h ! a)"
proof (induction e par h and cs a h arbitrary: r h' and h'' rule: build_tree_build_children.induct)
  case (1 nm cl s cs par h)
  show ?case
  proof (cases nm)
    case None
    with 1(2) show ?thesis by simp
  next
    case (Some n)
    define h1 where "h1 = h @ [\<lparr>tag = n, classes = (case cl of None \<Rightarrow> [] | Some c \<Rightarrow> c),
                          children = [], parent = par\<rparr>]"
    have h': "build_children cs (length h) h1 = h'"
      using 1(2) Some by (simp add: Let_def h1_def)
    have lt: "length h < length h1" by (simp add: h1_def)
    from 1(1)[OF Some refl h1_def lt h']
    have "\<forall>i<length h1. i \<noteq> length h \<longrightarrow> h' ! i = h1 ! i" by simp
    then show ?thesis by (simp add: h1_def nth_append)
  qed
next
  case (2 a h)
  then show ?case by simp
next
  case (3 c cs a h)
  obtain rc hc where bc: "build_tree c (Some a) h = (rc, hc)" by (cases "build_tree c (Some a) h")
  note fr = build_frame(1)[OF bc]
  note un = 3(1)[OF bc]
  show ?case
  proof (cases rc)
    case None
    then have "hc = h" using fr by simp
    moreover have "build_children cs a hc = h''" using 3(5) bc None by simp
    ultimately show ?thesis using 3(2)[OF bc[symmetric] None] 3(4) by simp
  next
    case (Some ca)
    define hu where "hu = hc[a := (hc ! a)\<lparr>children := children (hc ! a) @ [ca]\<rparr>]"
    have e: "build_children cs a hu = h''" using 3(5) bc Some by (simp add: hu_def)
    have ahc: "a < length hc" using fr 3(4) by simp
    have la: "a < length hu" using ahc by (simp add: hu_def)
    from 3(3)[OF bc[symmetric] Some la[unfolded hu_def] e[unfolded hu_def]]
    have ih: "\<forall>i<length hu. i \<noteq> a \<longrightarrow> h'' ! i = hu ! i"
      "tag (h'' ! a) = tag (hu ! a)" "classes (h'' ! a) = classes (hu ! a)"
      by (simp_all add: hu_def)
    have hu_other: "hu ! i = hc ! i" if "i \<noteq> a" for i using that by (simp add: hu_def)
    have hu_a: "tag (hu ! a) = tag (hc ! a)" "classes (hu ! a) = classes (hc ! a)"
      using ahc by (simp_all add: hu_def)
    have lenu: "length hu = length hc" by (simp add: hu_def)
    have "\<forall>i<length h. i \<noteq> a \<longrightarrow> h'' ! i = h ! i"
    proof (intro allI impI)
      fix i assume i: "i < length h" "i \<noteq> a"
      then have "i < length hu" using fr lenu by simp
      then have "h'' ! i = hu ! i" using ih(1) i(2) by simp
      also have "\<dots> = hc ! i" using hu_other[OF i(2)] .
      also have "\<dots> = h ! i" using un i(1) by simp
      finally show "h'' ! i = h ! i" .
    qed
    moreover have "tag (h'' ! a) = tag (h ! a)" using ih(2) hu_a(1) un 3(4) by simp
    moreover have "classes (h'' ! a) = classes (h ! a)" using ih(3) hu_a(2) un 3(4) by simp
    ultimately show ?thesis by simp
  qed
qed

lemma tree_at_bound:
  assumes "tree_at h a t" and "k \<in> set (preorder t)"
  shows "addr k < length h"
proof -
  have "tree_at h (addr k) k" by (rule tree_at_preorder[OF assms])
  then show ?thesis by (cases k) simp
qed

lemma tree_at_frame:
  "tree_at h a t \<Longrightarrow> length h \<le> length h' \<Longrightarrow>
   (\<And>k. k \<in> set (preorder t) \<Longrightarrow> h' ! addr k = h ! addr k) \<Longrightarrow> tree_at h' a t"
proof (induction t arbitrary: a)
  case (NTree b tg cl ks)
  have ab: "a = b" and al: "a < length h" and tg: "tag (h ! a) = tg" and cl: "classes (h ! a) = cl"
    and l2: "list_all2 (tree_at h) (children (h ! a)) ks"
    using NTree.prems(1) by auto
  have same: "h' ! a = h ! a"
    using NTree.prems(3)[of "NTree b tg cl ks"] ab by simp
  have "list_all2 (tree_at h') (children (h ! a)) ks"
  proof (rule list.rel_mono_strong[OF l2])
    fix c k assume c: "c \<in> set (children (h ! a))" and k: "k \<in> set ks" and t: "tree_at h c k"
    show "tree_at h' c k"
    proof (rule NTree.IH[OF k t NTree.prems(2)])
      fix k' assume "k' \<in> set (preorder k)"
      then have "k' \<in> set (preorder (NTree b tg cl ks))" using k by auto
      then show "h' ! addr k' = h ! addr k'" by (rule NTree.prems(3))
    qed
  qed
  then show ?case using ab al tg cl same NTree.prems(2) by simp
qed

lemma build_tree_at:
  "build_tree e par h = (Some r, h') \<Longrightarrow>
     \<exists>t. tree_at h' r t \<and> (\<forall>k \<in> set (preorder t). length h \<le> addr k)"
  "a < length h \<Longrightarrow> build_children cs a h = h'' \<Longrightarrow>
     \<exists>ks. children (h'' ! a) = children (h ! a) @ map addr ks \<and>
          list_all2 (tree_at h'') (map addr ks) ks \<and>
          (\<forall>k \<in> set ks. \<forall>k' \<in> set (preorder k). length h \<le> addr k')"
proof (induction e par h and cs a h arbitrary: r h' and h'' rule: build_tree_build_children.induct)
  case (1 nm cl s cs par h)
  from 1(2) obtain n where Some: "nm = Some n" by (cases nm) simp_all
  define cl' where "cl' = (case cl of None \<Rightarrow> [] | Some c \<Rightarrow> c)"
  define h1 where "h1 = h @ [\<lparr>tag = n, classes = cl', children = [], parent = par\<rparr>]"
  have r: "r = length h" and h': "build_children cs (length h) h1 = h'"
    using 1(2) Some by (auto simp add: Let_def h1_def cl'_def)
  have lt: "length h < length h1" by (simp add: h1_def)
  have h1d: "h1 = h @ [\<lparr>tag = n, classes = case cl of None \<Rightarrow> [] | Some c \<Rightarrow> c,
                          children = [], parent = par\<rparr>]"
    by (simp add: h1_def cl'_def)
  from 1(1)[OF Some refl h1d lt h']
  obtain ks where ks: "children (h' ! length h) = children (h1 ! length h) @ map addr ks"
    "list_all2 (tree_at h') (map addr ks) ks"
    "\<forall>k \<in> set ks. \<forall>k' \<in> set (preorder k). length h1 \<le> addr k'"
    by blast
  have un: "tag (h' ! length h) = tag (h1 ! length h)" "classes (h' ! length h) = classes (h1 ! length h)"
    using build_unchanged(2)[OF lt h'] by simp_all
  have len: "length h1 \<le> length h'" using build_frame(2)[OF lt h'] by simp
  have c0: "children (h' ! length h) = map addr ks" using ks(1) by (simp add: h1_def)
  have "tree_at h' (length h) (NTree (length h) n cl' ks)"
    using un len lt c0 ks(2) by (simp add: h1_def)
  moreover have "\<forall>k \<in> set (preorder (NTree (length h) n cl' ks)). length h \<le> addr k"
    using ks(3) lt by fastforce
  ultimately show ?case using r by blast
next
  case (2 a h)
  then show ?case by simp
next
  case (3 c cs a h)
  obtain rc hc where bc: "build_tree c (Some a) h = (rc, hc)" by (cases "build_tree c (Some a) h")
  note fr = build_frame(1)[OF bc]
  note un = build_unchanged(1)[OF bc]
  show ?case
  proof (cases rc)
    case None
    then have "hc = h" using fr by simp
    moreover have "build_children cs a hc = h''" using 3(5) bc None by simp
    ultimately show ?thesis using 3(2)[OF bc[symmetric] None] 3(4) by simp
  next
    case (Some ca)
    define hu where "hu = hc[a := (hc ! a)\<lparr>children := children (hc ! a) @ [ca]\<rparr>]"
    have e: "build_children cs a hu = h''" using 3(5) bc Some by (simp add: hu_def)
    have ahc: "a < length hc" using fr 3(4) by simp
    have la: "a < length hu" using ahc by (simp add: hu_def)
    have lenu: "length hu = length hc" by (simp add: hu_def)
    have ca: "ca = length h" using fr Some by simp
    from 3(1)[OF bc[unfolded Some]]
    obtain tc where tc: "tree_at hc ca tc" "\<forall>k \<in> set (preorder tc). length h \<le> addr k"
      by blast
    from 3(3)[OF bc[symmetric] Some la[unfolded hu_def] e[unfolded hu_def]]
    obtain ks where ks: "children (h'' ! a) = children (hu ! a) @ map addr ks"
      "list_all2 (tree_at h'') (map addr ks) ks"
      "\<forall>k \<in> set ks. \<forall>k' \<in> set (preorder k). length hu \<le> addr k'"
      by (auto simp: hu_def)
    have un2: "\<forall>i<length hu. i \<noteq> a \<longrightarrow> h'' ! i = hu ! i"
      and len2: "length hu \<le> length h''"
      using build_unchanged(2)[OF la e] build_frame(2)[OF la e] by simp_all
    have tc'': "tree_at h'' ca tc"
    proof (rule tree_at_frame[OF tc(1)])
      show "length hc \<le> length h''" using len2 lenu by simp
    next
      fix k assume k: "k \<in> set (preorder tc)"
      have kl: "addr k < length hc" by (rule tree_at_bound[OF tc(1) k])
      have ka: "addr k \<noteq> a" using tc(2) k 3(4) by fastforce
      have "h'' ! addr k = hu ! addr k" using un2 kl ka lenu by simp
      also have "\<dots> = hc ! addr k" using ka by (simp add: hu_def)
      finally show "h'' ! addr k = hc ! addr k" .
    qed
    have atc: "addr tc = ca" using tc(1) by (rule tree_at_addr)
    have cha: "children (hu ! a) = children (h ! a) @ [ca]"
      using ahc un 3(4) by (simp add: hu_def)
    have "children (h'' ! a) = children (h ! a) @ map addr (tc # ks)"
      using ks(1) cha atc by simp
    moreover have "list_all2 (tree_at h'') (map addr (tc # ks)) (tc # ks)"
      using ks(2) tc'' atc by simp
    moreover have "\<forall>k \<in> set (tc # ks). \<forall>k' \<in> set (preorder k). length h \<le> addr k'"
    proof (intro ballI)
      fix k k' assume k: "k \<in> set (tc # ks)" and k': "k' \<in> set (preorder k)"
      show "length h \<le> addr k'"
      proof (cases "k = tc")
        case True
        then show ?thesis using tc(2) k' by simp
      next
        case False
        then have "k \<in> set ks" using k by simp
        then have "length hu \<le> addr k'" using ks(3) k' by blast
        then show ?thesis using fr lenu by simp
      qed
    qed
    ultimately show ?thesis by blast
  qed
qed

lemma build_tree_reach_tree_at:
  assumes "build_tree e par h = (Some r, h')" and "a \<in> reach h' r"
  shows "\<exists>t. tree_at h' a t"
proof -
  obtain t where t: "tree_at h' r t" using build_tree_at(1)[OF assms(1)] by blast
  have "a \<in> set (map addr (preorder t))" using tree_at_reach[OF t] assms(2) by simp
  then obtain k where "k \<in> set (preorder t)" "addr k = a" by auto
  then show ?thesis using tree_at_preorder[OF t] by blast
qed

lemma scenario_built:
  "build_tree scenario None [] = (Some 0, scenario_heap)"
  "tree_at scenario_heap 0 scenario_tree"
  by (simp_all add: scenario_def scenario_heap_def scenario_tree_def)

end
